theory Spec2Isabelle
  imports Main "HOL-Library.Word" "HOL-Library.Sublist"
begin

unbundle bit_operations_syntax

section \<open>Errors and machine integers\<close>

text \<open>
  Errors are values. A gRPC status carries a code and a message; \<open>EOF\<close> is Go's
  \<open>io.EOF\<close>; a run-time panic (index out of range, division by zero, an explicit
  \<open>panic(...)\<close>) is the third alternative, so that every way in which a
  function of the source can fail to return normally is a branch of its model.
\<close>

datatype codes = InvalidArgument | NotFound | Internal | Unavailable | Unknown

datatype error = Status codes string | EOF | Panic string

text \<open>
  Go's \<open>int64\<close> and \<open>uint64\<close> are modelled as \<open>int\<close> with the wrap-around
  written out: \<open>int64\<close> and \<open>uint64\<close> are the conversions into the two ranges.
\<close>

definition int64 :: "int \<Rightarrow> int" where
  "int64 x = signed_take_bit 63 x"

definition uint64 :: "int \<Rightarrow> int" where
  "uint64 x = take_bit 64 x"

definition is_int64 :: "int \<Rightarrow> bool" where
  "is_int64 x = (- (2 ^ 63) \<le> x \<and> x < 2 ^ 63)"

text \<open>Go's \<open>/\<close> and \<open>%\<close> on \<open>int64\<close> truncate towards zero and panic on a zero divisor.\<close>

definition go_div :: "int \<Rightarrow> int \<Rightarrow> error + int" where
  "go_div a b =
     (if b = 0 then Inl (Panic ''integer divide by zero'')
      else Inr (int64 (sgn a * sgn b * (\<bar>a\<bar> div \<bar>b\<bar>))))"

definition go_rem :: "int \<Rightarrow> int \<Rightarrow> error + int" where
  "go_rem a b =
     (if b = 0 then Inl (Panic ''integer divide by zero'')
      else Inr (int64 (sgn a * (\<bar>a\<bar> mod \<bar>b\<bar>))))"

section \<open>Formatting\<close>

text \<open>\<open>fmt.Sprintf("%d", n)\<close>: the decimal digits, after a minus sign when negative.\<close>

function digits :: "nat \<Rightarrow> string" where
  "digits n =
     (if n < 10 then [char_of (48 + n)]
      else digits (n div 10) @ [char_of (48 + n mod 10)])"
  by pat_completeness auto
termination
  by (relation "measure id") auto

declare digits.simps [simp del]

definition fmt_d :: "int \<Rightarrow> string" where
  "fmt_d i = (if i < 0 then CHR ''-'' # digits (nat (- i)) else digits (nat i))"

text \<open>\<open>hex.EncodeToString\<close>: two lower-case hexadecimal characters per byte.\<close>

definition hexdigit :: "nat \<Rightarrow> char" where
  "hexdigit n = (''0123456789abcdef'') ! (n mod 16)"

definition hex_EncodeToString :: "8 word list \<Rightarrow> string" where
  "hex_EncodeToString bs =
     concat (map (\<lambda>b. [hexdigit (unat b div 16), hexdigit (unat b mod 16)]) bs)"

section \<open>Digest\<close>

text \<open>
  A \<open>Digest\<close> is its key string \<open>hash-size-instance\<close>, where the hash carries the
  prefix \<open>B3Z:\<close> or \<open>B3ZM:\<close> for BLAKE3ZCC blobs and manifests.
\<close>

datatype Digest = Digest (val: string)

definition BadDigest :: Digest where
  "BadDigest = Digest []"

text \<open>
  \<open>unpack\<close> scans for the first dash at or after index \<open>md5.Size * 2 = 32\<close>, then
  reads decimal digits up to the next dash. An index past the end of the string panics.
\<close>

function unpack_hashEnd :: "string \<Rightarrow> nat \<Rightarrow> error + nat" where
  "unpack_hashEnd v hashEnd =
     (if length v \<le> hashEnd then Inl (Panic ''index out of range'')
      else if v ! hashEnd = CHR ''-'' then Inr hashEnd
      else unpack_hashEnd v (Suc hashEnd))"
  by pat_completeness auto
termination
  by (relation "measure (\<lambda>(v, i). length v - i)") auto

declare unpack_hashEnd.simps [simp del]

text \<open>One step of the size loop: \<open>sizeBytes*10 + int64(c - '0')\<close>, the byte difference wrapping.\<close>

definition digit_step :: "char \<Rightarrow> int \<Rightarrow> int" where
  "digit_step c sizeBytes = int64 (sizeBytes * 10 + (of_char c - 48) mod 256)"

function unpack_sizeBytes :: "string \<Rightarrow> nat \<Rightarrow> int \<Rightarrow> error + (int \<times> nat)" where
  "unpack_sizeBytes v sizeBytesEnd sizeBytes =
     (if length v \<le> sizeBytesEnd then Inl (Panic ''index out of range'')
      else if v ! sizeBytesEnd = CHR ''-'' then Inr (sizeBytes, sizeBytesEnd)
      else unpack_sizeBytes v (Suc sizeBytesEnd)
             (digit_step (v ! sizeBytesEnd) sizeBytes))"
  by pat_completeness auto
termination
  by (relation "measure (\<lambda>(v, i, a). length v - i)") auto

declare unpack_sizeBytes.simps [simp del]

definition unpack :: "Digest \<Rightarrow> error + (nat \<times> int \<times> nat)" where
  "unpack d =
     (case unpack_hashEnd (val d) 32 of
        Inl e \<Rightarrow> Inl e
      | Inr hashEnd \<Rightarrow>
          (case unpack_sizeBytes (val d) (hashEnd + 1) 0 of
             Inl e \<Rightarrow> Inl e
           | Inr (sizeBytes, sizeBytesEnd) \<Rightarrow> Inr (hashEnd, sizeBytes, sizeBytesEnd)))"

definition newDigestUnchecked :: "string \<Rightarrow> string \<Rightarrow> int \<Rightarrow> Digest" where
  "newDigestUnchecked instance hash sizeBytes =
     Digest (hash @ ''-'' @ fmt_d sizeBytes @ ''-'' @ instance)"

definition newDigestBLAKE3ZCC :: "string \<Rightarrow> string \<Rightarrow> int \<Rightarrow> error + Digest" where
  "newDigestBLAKE3ZCC instance hash sizeBytes =
     (if sizeBytes < 0 then Inl (Status InvalidArgument ''Invalid digest size'')
      else Inr (Digest (''B3Z:'' @ hash @ ''-'' @ fmt_d sizeBytes @ ''-'' @ instance)))"

definition newDigestBLAKE3ZCCManifest :: "string \<Rightarrow> string \<Rightarrow> int \<Rightarrow> error + Digest" where
  "newDigestBLAKE3ZCCManifest instance hash sizeBytes =
     (if sizeBytes < 0 then Inl (Status InvalidArgument ''Invalid digest size'')
      else Inr (Digest (''B3ZM:'' @ hash @ ''-'' @ fmt_d sizeBytes @ ''-'' @ instance)))"

definition is_lower_hex :: "char \<Rightarrow> bool" where
  "is_lower_hex c =
     (\<not> ((of_char c < (48::nat) \<or> of_char c > (57::nat)) \<and>
         (of_char c < (97::nat) \<or> of_char c > (102::nat))))"

definition newDigestOther :: "string \<Rightarrow> string \<Rightarrow> int \<Rightarrow> error + Digest" where
  "newDigestOther instance hash sizeBytes =
     (if sizeBytes < 0 then Inl (Status InvalidArgument ''Invalid digest size'')
      else if length hash \<noteq> 32 \<and> length hash \<noteq> 40 \<and> length hash \<noteq> 64 \<and>
              length hash \<noteq> 96 \<and> length hash \<noteq> 128
        then Inl (Status InvalidArgument ''Unknown digest hash length'')
      else if list_ex (\<lambda>c. \<not> is_lower_hex c) hash
        then Inl (Status InvalidArgument ''Non-hexadecimal character in digest hash'')
      else Inr (newDigestUnchecked instance hash sizeBytes))"

definition NewDigest :: "string \<Rightarrow> string \<Rightarrow> int \<Rightarrow> error + Digest" where
  "NewDigest instance hash sizeBytes =
     (if prefix ''B3Z:'' hash then newDigestBLAKE3ZCC instance (drop 4 hash) sizeBytes
      else if prefix ''B3ZM:'' hash then newDigestBLAKE3ZCCManifest instance (drop 5 hash) sizeBytes
      else newDigestOther instance hash sizeBytes)"

definition GetHashString :: "Digest \<Rightarrow> error + string" where
  "GetHashString d =
     (case unpack d of Inl e \<Rightarrow> Inl e | Inr (hashEnd, _, _) \<Rightarrow> Inr (take hashEnd (val d)))"

definition GetSizeBytes :: "Digest \<Rightarrow> error + int" where
  "GetSizeBytes d =
     (case unpack d of Inl e \<Rightarrow> Inl e | Inr (_, sizeBytes, _) \<Rightarrow> Inr sizeBytes)"

definition GetInstance :: "Digest \<Rightarrow> error + string" where
  "GetInstance d =
     (case unpack d of
        Inl e \<Rightarrow> Inl e
      | Inr (_, _, sizeBytesEnd) \<Rightarrow> Inr (drop (sizeBytesEnd + 1) (val d)))"

text \<open>The parser of a BLAKE3ZCC manifest remembers the blob it belongs to.\<close>

record blake3zccManifestParser =
  mp_instance :: string
  blobSizeBytes :: int
  blockSizeBytes :: int
  hashSizeBytes :: nat

definition newBLAKE3ZCCManifestParser ::
  "string \<Rightarrow> int \<Rightarrow> int \<Rightarrow> nat \<Rightarrow> blake3zccManifestParser" where
  "newBLAKE3ZCCManifestParser instance blobSize blockSize hashSize =
     \<lparr> mp_instance = instance, blobSizeBytes = blobSize,
       blockSizeBytes = blockSize, hashSizeBytes = hashSize \<rparr>"

definition blake3zccChunkNodeSizeBytes :: int where
  "blake3zccChunkNodeSizeBytes = 97"

definition blake3zccParentNodeSizeBytes :: int where
  "blake3zccParentNodeSizeBytes = 64"

text \<open>
  \<open>convertSizeToBlockCount\<close> divides in \<open>uint64\<close>; the division panics when the
  block size is zero.
\<close>

definition convertSizeToBlockCount :: "int \<Rightarrow> int \<Rightarrow> error + int" where
  "convertSizeToBlockCount blobSize blockSize =
     (if uint64 blockSize = 0 then Inl (Panic ''integer divide by zero'')
      else Inr (int64 (uint64 (uint64 blobSize + uint64 blockSize - 1) div uint64 blockSize)))"

text \<open>
  \<open>ToManifest\<close> returns \<open>Inr None\<close> for \<open>ok = false\<close> and the manifest digest with
  its parser for \<open>ok = true\<close>.
\<close>

definition ToManifest ::
  "Digest \<Rightarrow> int \<Rightarrow> error + (Digest \<times> blake3zccManifestParser) option" where
  "ToManifest d blockSize =
     (if \<not> prefix ''B3Z:'' (val d) then Inr None
      else (case unpack d of
        Inl e \<Rightarrow> Inl e
      | Inr (hashEnd, sizeBytes, sizeBytesEnd) \<Rightarrow>
          (if sizeBytes \<le> blockSize then Inr None
          else (case convertSizeToBlockCount sizeBytes blockSize of
            Inl e \<Rightarrow> Inl e
          | Inr blockCount \<Rightarrow>
              (case go_rem sizeBytes blockSize of
                 Inl e \<Rightarrow> Inl e
               | Inr lastBlockSizeBytes \<Rightarrow>
                   let manifestSizeBytes0 = int64 (blockCount * blake3zccParentNodeSizeBytes);
                       manifestSizeBytes =
                         (if lastBlockSizeBytes > 0 \<and> lastBlockSizeBytes \<le> 1024
                          then int64 (manifestSizeBytes0 +
                                 (blake3zccChunkNodeSizeBytes - blake3zccParentNodeSizeBytes))
                          else manifestSizeBytes0);
                       hash = drop 4 (take hashEnd (val d));
                       instance = drop (sizeBytesEnd + 1) (val d)
                   in Inr (Some
                        (Digest (''B3ZM:'' @ hash @ ''-'' @ fmt_d manifestSizeBytes @ ''-'' @ instance),
                         newBLAKE3ZCCManifestParser instance sizeBytes blockSize
                           (length hash div 2))))))))"

section \<open>The BLAKE3ZCC hash engine\<close>

type_synonym u32 = "32 word"
type_synonym u64 = "64 word"
type_synonym byte = "8 word"

definition maximumBlockSize :: nat where
  "maximumBlockSize = 64"

definition maximumBlocksPerChunk :: nat where
  "maximumBlocksPerChunk = 1024 div 64"

definition flagChunkStart :: u32 where
  "flagChunkStart = push_bit 0 1"

definition flagChunkEnd :: u32 where
  "flagChunkEnd = push_bit 1 1"

definition flagParent :: u32 where
  "flagParent = push_bit 2 1"

definition flagRoot :: u32 where
  "flagRoot = push_bit 3 1"

definition iv :: "u32 list" where
  "iv = [0x6a09e667, 0xbb67ae85, 0x3c6ef372, 0xa54ff53a,
         0x510e527f, 0x9b05688c, 0x1f83d9ab, 0x5be0cd19]"

text \<open>
  The G function works on four entries of the state \<open>v\<close>, given by their indices.
  \<open>bits.RotateLeft32 x (-k)\<close> rotates to the right by \<open>k\<close>.
\<close>

definition g :: "u32 list \<Rightarrow> nat \<Rightarrow> nat \<Rightarrow> nat \<Rightarrow> nat \<Rightarrow> u32 \<Rightarrow> u32 \<Rightarrow> u32 list" where
  "g v pa pb pc pd m0 m1 =
     (let a0 = v ! pa; b0 = v ! pb; c0 = v ! pc; d0 = v ! pd;
          a1 = a0 + (b0 + m0);
          d1 = word_rotr 16 (d0 XOR a1);
          c1 = c0 + d1;
          b1 = word_rotr 12 (b0 XOR c1);
          a2 = a1 + (b1 + m1);
          d2 = word_rotr 8 (d1 XOR a2);
          c2 = c1 + d2;
          b2 = word_rotr 7 (b1 XOR c2)
      in v[pa := a2, pb := b2, pc := c2, pd := d2])"

text \<open>One round: eight applications of G, the message words taken in the order \<open>s\<close>.\<close>

definition compress_round :: "u32 list \<Rightarrow> nat list \<Rightarrow> u32 list \<Rightarrow> u32 list" where
  "compress_round m s v0 =
     (let v1 = g v0 0 4 8 12 (m ! (s ! 0)) (m ! (s ! 1));
          v2 = g v1 1 5 9 13 (m ! (s ! 2)) (m ! (s ! 3));
          v3 = g v2 2 6 10 14 (m ! (s ! 4)) (m ! (s ! 5));
          v4 = g v3 3 7 11 15 (m ! (s ! 6)) (m ! (s ! 7));
          v5 = g v4 0 5 10 15 (m ! (s ! 8)) (m ! (s ! 9));
          v6 = g v5 1 6 11 12 (m ! (s ! 10)) (m ! (s ! 11));
          v7 = g v6 2 7 8 13 (m ! (s ! 12)) (m ! (s ! 13));
          v8 = g v7 3 4 9 14 (m ! (s ! 14)) (m ! (s ! 15))
      in v8)"

text \<open>The message schedule of the seven rounds, as the source spells it out.\<close>

definition message_schedule :: "nat list list" where
  "message_schedule =
     [[0, 1, 2, 3, 4, 5, 6, 7, 8, 9, 10, 11, 12, 13, 14, 15],
      [2, 6, 3, 10, 7, 0, 4, 13, 1, 11, 12, 5, 9, 14, 15, 8],
      [3, 4, 10, 12, 13, 2, 7, 14, 6, 5, 9, 0, 11, 15, 8, 1],
      [10, 7, 12, 9, 14, 3, 13, 15, 4, 0, 11, 2, 5, 8, 1, 6],
      [12, 13, 9, 11, 15, 10, 14, 8, 7, 2, 5, 3, 0, 1, 6, 4],
      [9, 14, 11, 5, 8, 12, 15, 1, 13, 3, 0, 10, 2, 6, 4, 7],
      [11, 15, 5, 0, 1, 9, 8, 6, 14, 10, 2, 12, 3, 4, 7, 13]]"

definition compress :: "u32 list \<Rightarrow> u32 list \<Rightarrow> u64 \<Rightarrow> u32 \<Rightarrow> u32 \<Rightarrow> u32 list" where
  "compress h m t b d =
     (let v0 = [h ! 0, h ! 1, h ! 2, h ! 3, h ! 4, h ! 5, h ! 6, h ! 7,
                iv ! 0, iv ! 1, iv ! 2, iv ! 3,
                ucast t, ucast (drop_bit 32 t), b, d];
          v = fold (compress_round m) message_schedule v0
      in [v ! 0 XOR v ! 8, v ! 1 XOR v ! 9, v ! 2 XOR v ! 10, v ! 3 XOR v ! 11,
          v ! 4 XOR v ! 12, v ! 5 XOR v ! 13, v ! 6 XOR v ! 14, v ! 7 XOR v ! 15,
          v ! 8 XOR h ! 0, v ! 9 XOR h ! 1, v ! 10 XOR h ! 2, v ! 11 XOR h ! 3,
          v ! 12 XOR h ! 4, v ! 13 XOR h ! 5, v ! 14 XOR h ! 6, v ! 15 XOR h ! 7])"

definition truncate_cv :: "u32 list \<Rightarrow> u32 list" where
  "truncate_cv inp = take 8 inp"

definition concatenate :: "u32 list \<Rightarrow> u32 list \<Rightarrow> u32 list" where
  "concatenate a b = take 8 a @ take 8 b"

subsection \<open>Nodes of the Merkle tree\<close>

record Node =
  n_chainingValue :: "u32 list"
  n_m :: "u32 list"
  n_blockSize :: u32
  n_flags :: u32

definition NewChunkNode :: "u32 list \<Rightarrow> u32 list \<Rightarrow> u32 \<Rightarrow> bool \<Rightarrow> Node" where
  "NewChunkNode chainingValue m blockSize chunkStart =
     \<lparr> n_chainingValue = chainingValue, n_m = m, n_blockSize = blockSize,
       n_flags = (if chunkStart then flagChunkEnd OR flagChunkStart else flagChunkEnd) \<rparr>"

definition NewParentNode :: "u32 list \<Rightarrow> Node" where
  "NewParentNode m =
     \<lparr> n_chainingValue = iv, n_m = m, n_blockSize = of_nat maximumBlockSize,
       n_flags = flagParent \<rparr>"

definition GetChunkData :: "Node \<Rightarrow> error + (u32 list \<times> u32 list \<times> u32 \<times> bool)" where
  "GetChunkData n =
     (if n_flags n AND flagChunkEnd = 0 then Inl (Panic ''Node is not a chunk end node'')
      else Inr (n_chainingValue n, n_m n, n_blockSize n, n_flags n AND flagChunkStart \<noteq> 0))"

definition GetParentData :: "Node \<Rightarrow> error + u32 list" where
  "GetParentData n =
     (if n_flags n \<noteq> flagParent then Inl (Panic ''Node is not a parent node'')
      else Inr (n_m n))"

text \<open>\<open>binary.LittleEndian\<close>: reading needs four bytes, and panics on fewer.\<close>

definition PutUint32 :: "u32 \<Rightarrow> byte list" where
  "PutUint32 v = [ucast v, ucast (drop_bit 8 v), ucast (drop_bit 16 v), ucast (drop_bit 24 v)]"

definition Uint32 :: "byte list \<Rightarrow> error + u32" where
  "Uint32 b =
     (if length b < 4 then Inl (Panic ''index out of range'')
      else Inr (ucast (b ! 0) OR push_bit 8 (ucast (b ! 1)) OR
                push_bit 16 (ucast (b ! 2)) OR push_bit 24 (ucast (b ! 3))))"

text \<open>
  \<open>GetHashValue\<close> fills \<open>outputSizeBytes\<close> bytes from successive outputs of the
  compression function under the root flag. The inner loop writes whole words while
  four bytes of room remain, and returns after a last partial word.
\<close>

fun GetHashValue_words :: "u32 list \<Rightarrow> nat \<Rightarrow> byte list \<times> bool" where
  "GetHashValue_words [] room = ([], False)"
| "GetHashValue_words (v # vs) room =
     (if room < 4 then (take room (PutUint32 v), True)
      else (case GetHashValue_words vs (room - 4) of
              (out, returned) \<Rightarrow> (PutUint32 v @ out, returned)))"

lemma compress_not_Nil: "compress h m t b d \<noteq> []"
  by (simp add: compress_def Let_def)

lemma GetHashValue_words_progress:
  "GetHashValue_words ws room = (out, False) \<Longrightarrow> ws \<noteq> [] \<Longrightarrow> 0 < length out"
  by (cases ws) (auto simp: PutUint32_def split: if_splits prod.splits)

function GetHashValue_loop :: "Node \<Rightarrow> nat \<Rightarrow> u64 \<Rightarrow> byte list" where
  "GetHashValue_loop n room counter =
     (if room = 0 then []
      else (case GetHashValue_words
                   (compress (n_chainingValue n) (n_m n) counter (n_blockSize n)
                      (n_flags n OR flagRoot)) room of
              (out, returned) \<Rightarrow>
                if returned then out
                else out @ GetHashValue_loop n (room - length out) (counter + 1)))"
  by pat_completeness auto
termination
  apply (relation "measure (\<lambda>(n, room, counter). room)")
   apply simp
  apply (auto dest!: sym [of "(_, _)"] GetHashValue_words_progress [OF _ compress_not_Nil])
  done

declare GetHashValue_loop.simps [simp del]

definition GetHashValue :: "Node \<Rightarrow> nat \<Rightarrow> byte list \<Rightarrow> byte list" where
  "GetHashValue n outputSizeBytes b = b @ GetHashValue_loop n outputSizeBytes 0"

subsection \<open>The chaining value stack\<close>

record ChainingValueStack =
  cvs_stack :: "u32 list list"
  cvs_totalNodes :: u64

definition NewChainingValueStack :: ChainingValueStack where
  "NewChainingValueStack = \<lparr> cvs_stack = [], cvs_totalNodes = 0 \<rparr>"

text \<open>
  The merge loop of \<open>AppendNode\<close>: one parent per trailing one bit of the node count.
  Reading the top of an empty stack panics.
\<close>

function AppendNode_merge ::
  "u32 list list \<Rightarrow> u32 list \<Rightarrow> u64 \<Rightarrow> error + (u32 list list \<times> u32 list)" where
  "AppendNode_merge stack chainingValue totalNodes =
     (if totalNodes AND 1 \<noteq> 0 then
        (if stack = [] then Inl (Panic ''index out of range'')
         else AppendNode_merge (butlast stack)
                (truncate_cv (compress iv (concatenate (last stack) chainingValue) 0
                   (of_nat maximumBlockSize) flagParent))
                (drop_bit 1 totalNodes))
      else Inr (stack, chainingValue))"
  by pat_completeness auto
termination
proof (relation "measure (\<lambda>(stack, chainingValue, totalNodes). unat totalNodes)")
  show "wf (measure (\<lambda>(stack, chainingValue, totalNodes). unat totalNodes))"
    by simp
next
  fix stack :: "u32 list list" and chainingValue :: "u32 list" and totalNodes :: u64
  assume "totalNodes AND 1 \<noteq> 0"
  then have "totalNodes \<noteq> 0" by auto
  then have "0 < unat totalNodes" by (simp add: unat_gt_0)
  then have "unat totalNodes div 2 < unat totalNodes" by simp
  then have "unat (drop_bit 1 totalNodes) < unat totalNodes"
    by (simp add: drop_bit_eq_div unat_div)
  then show "((butlast stack,
               truncate_cv (compress iv (concatenate (last stack) chainingValue) 0
                 (of_nat maximumBlockSize) flagParent),
               drop_bit 1 totalNodes),
              (stack, chainingValue, totalNodes))
             \<in> measure (\<lambda>(stack, chainingValue, totalNodes). unat totalNodes)"
    by simp
qed

declare AppendNode_merge.simps [simp del]

definition AppendNode :: "ChainingValueStack \<Rightarrow> Node \<Rightarrow> error + ChainingValueStack" where
  "AppendNode s n =
     (case AppendNode_merge (cvs_stack s)
             (truncate_cv (compress (n_chainingValue n) (n_m n) 0 (n_blockSize n) (n_flags n)))
             (cvs_totalNodes s) of
        Inl e \<Rightarrow> Inl e
      | Inr (stack, chainingValue) \<Rightarrow>
          Inr \<lparr> cvs_stack = stack @ [chainingValue], cvs_totalNodes = cvs_totalNodes s + 1 \<rparr>)"

text \<open>\<open>GetRootNode\<close> walks the stack from its top (the last entry) down to index 0.\<close>

definition GetRootNode_step :: "u32 list \<Rightarrow> Node \<Rightarrow> Node" where
  "GetRootNode_step entry n =
     NewParentNode (concatenate entry
       (truncate_cv (compress (n_chainingValue n) (n_m n) 0 (n_blockSize n) (n_flags n))))"

definition GetRootNode :: "ChainingValueStack \<Rightarrow> Node \<Rightarrow> Node" where
  "GetRootNode s lastNode = fold GetRootNode_step (rev (cvs_stack s)) lastNode"

subsection \<open>The chunk parser\<close>

record ChunkParser =
  cp_block :: "byte list"
  cp_blockSize :: nat
  cp_blocksRemaining :: nat
  cp_chunkChainingValue :: "u32 list"
  cp_chunkStart :: bool
  cp_chainingValueStack :: ChainingValueStack

definition NewChunkParser :: ChunkParser where
  "NewChunkParser =
     \<lparr> cp_block = replicate maximumBlockSize 0, cp_blockSize = 0,
       cp_blocksRemaining = maximumBlocksPerChunk, cp_chunkChainingValue = iv,
       cp_chunkStart = True, cp_chainingValueStack = NewChainingValueStack \<rparr>"

text \<open>
  \<open>copy(dst[at:], src)\<close> on an array of \<open>cap\<close> bytes: the bytes that fit, written in
  place, and their number.
\<close>

definition copy_into :: "nat \<Rightarrow> byte list \<Rightarrow> nat \<Rightarrow> byte list \<Rightarrow> byte list \<times> nat" where
  "copy_into cap dst at src =
     (let n = min (cap - at) (length src)
      in (take at dst @ take n src @ drop (at + n) dst, n))"

text \<open>The sixteen little-endian words of a 64 byte block; the array always holds 64 bytes.\<close>

definition words_of_block :: "byte list \<Rightarrow> u32 list" where
  "words_of_block block =
     map (\<lambda>i. ucast (block ! (4 * i)) OR push_bit 8 (ucast (block ! (4 * i + 1))) OR
               push_bit 16 (ucast (block ! (4 * i + 2))) OR
               push_bit 24 (ucast (block ! (4 * i + 3)))) [0 ..< 16]"

definition getBlock :: "ChunkParser \<Rightarrow> u32 list" where
  "getBlock p = words_of_block (cp_block p)"

function ChunkParser_Write :: "ChunkParser \<Rightarrow> byte list \<Rightarrow> error + ChunkParser" where
  "ChunkParser_Write p b =
     (if maximumBlockSize < cp_blockSize p then Inl (Panic ''slice bounds out of range'')
      else
        (case copy_into maximumBlockSize (cp_block p) (cp_blockSize p) b of
           (block, n) \<Rightarrow>
             (let p1 = p\<lparr> cp_block := block, cp_blockSize := cp_blockSize p + n \<rparr>;
                  b1 = drop n b
              in if length b1 = 0 then Inr p1
                 else
                   (let m = getBlock p1;
                        p2 = p1\<lparr> cp_blockSize := 0 \<rparr>
                    in if cp_blocksRemaining p2 = 1 then
                         (case AppendNode (cp_chainingValueStack p2)
                                 (NewChunkNode (cp_chunkChainingValue p2) m
                                    (of_nat maximumBlockSize) False) of
                            Inl e \<Rightarrow> Inl e
                          | Inr s \<Rightarrow>
                              ChunkParser_Write
                                (p2\<lparr> cp_chainingValueStack := s,
                                     cp_blocksRemaining := maximumBlocksPerChunk,
                                     cp_chunkChainingValue := iv,
                                     cp_chunkStart := True \<rparr>) b1)
                       else
                         ChunkParser_Write
                           (p2\<lparr> cp_blocksRemaining := cp_blocksRemaining p2 - 1,
                                cp_chunkChainingValue :=
                                  truncate_cv (compress (cp_chunkChainingValue p2) m 0
                                    (of_nat maximumBlockSize)
                                    (if cp_chunkStart p2 then 0 OR flagChunkStart else 0)),
                                cp_chunkStart := False \<rparr>) b1))))"
  by pat_completeness auto
termination
  by (relation "measure (\<lambda>(p, b). 2 * length b + (if maximumBlockSize \<le> cp_blockSize p then 1 else 0))")
     (auto simp: copy_into_def maximumBlockSize_def Let_def min_def split: if_splits)

declare ChunkParser_Write.simps [simp del]

definition ChunkParser_GetRootNode :: "ChunkParser \<Rightarrow> Node" where
  "ChunkParser_GetRootNode p =
     (let block = take (cp_blockSize p) (cp_block p) @
                  replicate (maximumBlockSize - cp_blockSize p) 0;
          m = words_of_block block;
          n = NewChunkNode (cp_chunkChainingValue p) m (of_nat (cp_blockSize p)) (cp_chunkStart p)
      in GetRootNode (cp_chainingValueStack p) n)"

section \<open>The manifest codec\<close>

text \<open>
  Reading \<open>k\<close> little-endian words off the front of an entry, as the loops
  \<open>m[i] = binary.LittleEndian.Uint32(entry); entry = entry[4:]\<close> do.
\<close>

fun unmarshal_words :: "nat \<Rightarrow> byte list \<Rightarrow> error + (u32 list \<times> byte list)" where
  "unmarshal_words 0 entry = Inr ([], entry)"
| "unmarshal_words (Suc k) entry =
     (case Uint32 entry of
        Inl e \<Rightarrow> Inl e
      | Inr w \<Rightarrow>
          (case unmarshal_words k (drop 4 entry) of
             Inl e \<Rightarrow> Inl e
           | Inr (ws, rest) \<Rightarrow> Inr (w # ws, rest)))"

definition unmarshalBLAKE3ZCCChunkNode :: "byte list \<Rightarrow> error + Node" where
  "unmarshalBLAKE3ZCCChunkNode entry =
     (case unmarshal_words 8 entry of
        Inl e \<Rightarrow> Inl e
      | Inr (chainingValue, entry1) \<Rightarrow>
          (case unmarshal_words 16 entry1 of
             Inl e \<Rightarrow> Inl e
           | Inr (m, entry2) \<Rightarrow>
               (if length entry2 = 0 then Inl (Panic ''index out of range'')
                else Inr (NewChunkNode chainingValue m
                            (ucast (entry2 ! 0 AND NOT 0x80))
                            (entry2 ! 0 AND 0x80 \<noteq> 0)))))"

definition unmarshalBLAKE3ZCCParentNode :: "byte list \<Rightarrow> error + Node" where
  "unmarshalBLAKE3ZCCParentNode entry =
     (case unmarshal_words 16 entry of
        Inl e \<Rightarrow> Inl e
      | Inr (m, entry1) \<Rightarrow> Inr (NewParentNode m))"

text \<open>Marshalling fills a fresh entry of 97 or 64 bytes.\<close>

definition marshalBLAKE3ZCCChunkNode :: "Node \<Rightarrow> error + byte list" where
  "marshalBLAKE3ZCCChunkNode n =
     (case GetChunkData n of
        Inl e \<Rightarrow> Inl e
      | Inr (chainingValue, m, blockSize, chunkStart) \<Rightarrow>
          Inr (concat (map PutUint32 chainingValue) @ concat (map PutUint32 m) @
               [if chunkStart then ucast (blockSize AND NOT 0x80) OR 0x80
                else ucast (blockSize AND NOT 0x80)]))"

definition marshalBLAKE3ZCCParentNode :: "Node \<Rightarrow> error + byte list" where
  "marshalBLAKE3ZCCParentNode n =
     (case GetParentData n of
        Inl e \<Rightarrow> Inl e
      | Inr m \<Rightarrow> Inr (concat (map PutUint32 m)))"

subsection \<open>The manifest parser\<close>

definition convertNodeToDigest :: "blake3zccManifestParser \<Rightarrow> Node \<Rightarrow> int \<Rightarrow> Digest" where
  "convertNodeToDigest mp n blockSize =
     Digest (''B3Z:'' @ hex_EncodeToString (GetHashValue n (hashSizeBytes mp) []) @ ''-'' @
             fmt_d blockSize @ ''-'' @ mp_instance mp)"

text \<open>
  \<open>GetBlockDigest\<close>: the block number is \<open>off / blockSizeBytes\<close>; the last block takes
  the size \<open>blobSizeBytes % blockSizeBytes\<close>; the entry is the manifest from
  \<open>block * 64\<close> on; a size of at most 1024 selects a chunk node.
\<close>

definition GetBlockDigest ::
  "blake3zccManifestParser \<Rightarrow> byte list \<Rightarrow> int \<Rightarrow> error + (Digest \<times> int)" where
  "GetBlockDigest mp manifest off =
     (case go_div off (blockSizeBytes mp) of
        Inl e \<Rightarrow> Inl e
      | Inr block \<Rightarrow>
          (case convertSizeToBlockCount (blobSizeBytes mp) (blockSizeBytes mp) of
             Inl e \<Rightarrow> Inl e
           | Inr blockCount \<Rightarrow>
               (case (if block = int64 (blockCount - 1)
                      then go_rem (blobSizeBytes mp) (blockSizeBytes mp)
                      else Inr (blockSizeBytes mp)) of
                  Inl e \<Rightarrow> Inl e
                | Inr blockSize \<Rightarrow>
                    (let start = int64 (block * blake3zccParentNodeSizeBytes)
                     in if start < 0 \<or> int (length manifest) < start
                        then Inl (Panic ''slice bounds out of range'')
                        else
                          (case (if blockSize \<le> 1024
                                 then unmarshalBLAKE3ZCCChunkNode (drop (nat start) manifest)
                                 else unmarshalBLAKE3ZCCParentNode (drop (nat start) manifest)) of
                             Inl e \<Rightarrow> Inl e
                           | Inr n \<Rightarrow>
                               Inr (convertNodeToDigest mp n blockSize,
                                    int64 (block * blockSizeBytes mp)))))))"

text \<open>\<open>AppendBlockDigest\<close> returns the extended manifest and the digest of the block.\<close>

definition AppendBlockDigest ::
  "blake3zccManifestParser \<Rightarrow> byte list \<Rightarrow> byte list \<Rightarrow> error + (byte list \<times> Digest)" where
  "AppendBlockDigest mp manifest block =
     (case ChunkParser_Write NewChunkParser block of
        Inl e \<Rightarrow> Inl e
      | Inr c \<Rightarrow>
          (let n = ChunkParser_GetRootNode c
           in case (if length block \<le> 1024 then marshalBLAKE3ZCCChunkNode n
                    else marshalBLAKE3ZCCParentNode n) of
                Inl e \<Rightarrow> Inl e
              | Inr entry \<Rightarrow>
                  Inr (manifest @ entry, convertNodeToDigest mp n (int (length block)))))"

subsection \<open>The manifest hasher\<close>

record blake3zccManifestHasher =
  mh_entry :: "byte list"
  mh_entrySize :: nat
  mh_chainingValueStack :: ChainingValueStack
  mh_outputSizeBytes :: nat

definition newBLAKE3ZCCManifestHasher :: "nat \<Rightarrow> blake3zccManifestHasher" where
  "newBLAKE3ZCCManifestHasher outputSizeBytes =
     \<lparr> mh_entry = replicate (nat blake3zccChunkNodeSizeBytes) 0, mh_entrySize = 0,
       mh_chainingValueStack = NewChainingValueStack, mh_outputSizeBytes = outputSizeBytes \<rparr>"

text \<open>
  \<open>Write\<close> fills the 97 byte buffer; while input remains, the first 64 bytes are
  ingested as a parent node and the last 33 bytes move to the front.
\<close>

function ManifestHasher_Write ::
  "blake3zccManifestHasher \<Rightarrow> byte list \<Rightarrow> error + blake3zccManifestHasher" where
  "ManifestHasher_Write h p =
     (if nat blake3zccChunkNodeSizeBytes < mh_entrySize h
      then Inl (Panic ''slice bounds out of range'')
      else
        (case copy_into (nat blake3zccChunkNodeSizeBytes) (mh_entry h) (mh_entrySize h) p of
           (entry, n) \<Rightarrow>
             (let h1 = h\<lparr> mh_entry := entry, mh_entrySize := mh_entrySize h + n \<rparr>;
                  p1 = drop n p
              in if length p1 = 0 then Inr h1
                 else
                   (case unmarshalBLAKE3ZCCParentNode (mh_entry h1) of
                      Inl e \<Rightarrow> Inl e
                    | Inr node \<Rightarrow>
                        (case AppendNode (mh_chainingValueStack h1) node of
                           Inl e \<Rightarrow> Inl e
                         | Inr s \<Rightarrow>
                             ManifestHasher_Write
                               (h1\<lparr> mh_chainingValueStack := s,
                                    mh_entry :=
                                      drop (nat blake3zccParentNodeSizeBytes) (mh_entry h1) @
                                      drop (nat blake3zccChunkNodeSizeBytes -
                                            nat blake3zccParentNodeSizeBytes) (mh_entry h1),
                                    mh_entrySize :=
                                      nat blake3zccChunkNodeSizeBytes -
                                      nat blake3zccParentNodeSizeBytes \<rparr>) p1)))))"
  by pat_completeness auto
termination
  by (relation "measure (\<lambda>(h, p). 2 * length p +
        (if nat blake3zccChunkNodeSizeBytes \<le> mh_entrySize h then 1 else 0))")
     (auto simp: copy_into_def blake3zccChunkNodeSizeBytes_def blake3zccParentNodeSizeBytes_def
        Let_def min_def split: if_splits)

declare ManifestHasher_Write.simps [simp del]

definition ManifestHasher_Sum :: "blake3zccManifestHasher \<Rightarrow> byte list \<Rightarrow> error + byte list" where
  "ManifestHasher_Sum h b =
     (case (if mh_entrySize h = nat blake3zccChunkNodeSizeBytes
            then unmarshalBLAKE3ZCCChunkNode (mh_entry h)
            else if mh_entrySize h = nat blake3zccParentNodeSizeBytes
            then unmarshalBLAKE3ZCCParentNode (mh_entry h)
            else Inl (Panic ''Manifest has invalid size'')) of
        Inl e \<Rightarrow> Inl e
      | Inr lastNode \<Rightarrow>
          Inr (GetHashValue (GetRootNode (mh_chainingValueStack h) lastNode)
                 (mh_outputSizeBytes h) b))"

text \<open>A sequence of \<open>Write\<close> calls, stopping at the first panic.\<close>

fun ManifestHasher_Writes ::
  "blake3zccManifestHasher \<Rightarrow> byte list list \<Rightarrow> error + blake3zccManifestHasher" where
  "ManifestHasher_Writes h [] = Inr h"
| "ManifestHasher_Writes h (p # ps) =
     (case ManifestHasher_Write h p of
        Inl e \<Rightarrow> Inl e
      | Inr h' \<Rightarrow> ManifestHasher_Writes h' ps)"

subsection \<open>Hashers and the digest generator\<close>

text \<open>
  A \<open>hash.Hash\<close> is the blob hasher, the manifest hasher, or one of the standard
  library's hashers. The latter are outside the repository: they are represented by the
  data written so far and the output size, and their digest function \<open>std\<close> is a
  parameter of \<open>Sum\<close>.
\<close>

datatype Hasher =
    BlobHasher ChunkParser nat
  | ManifestHasher blake3zccManifestHasher
  | StdHasher nat "byte list"

definition newBLAKE3ZCCBlobHasher :: "nat \<Rightarrow> Hasher" where
  "newBLAKE3ZCCBlobHasher outputSizeBytes = BlobHasher NewChunkParser outputSizeBytes"

definition NewHasher :: "Digest \<Rightarrow> error + Hasher" where
  "NewHasher d =
     (case GetHashString d of
        Inl e \<Rightarrow> Inl e
      | Inr hash \<Rightarrow>
          if prefix ''B3Z:'' hash then Inr (newBLAKE3ZCCBlobHasher (length (drop 4 hash) div 2))
          else if prefix ''B3ZM:'' hash
            then Inr (ManifestHasher (newBLAKE3ZCCManifestHasher (length (drop 5 hash) div 2)))
          else if length hash = 32 then Inr (StdHasher 16 [])
          else if length hash = 40 then Inr (StdHasher 20 [])
          else if length hash = 64 then Inr (StdHasher 32 [])
          else if length hash = 96 then Inr (StdHasher 48 [])
          else if length hash = 128 then Inr (StdHasher 64 [])
          else Inl (Panic ''Digest hash is of unknown type''))"

fun Hasher_Write :: "Hasher \<Rightarrow> byte list \<Rightarrow> error + (Hasher \<times> nat)" where
  "Hasher_Write (BlobHasher p k) b =
     (case ChunkParser_Write p b of
        Inl e \<Rightarrow> Inl e
      | Inr p' \<Rightarrow> Inr (BlobHasher p' k, length b))"
| "Hasher_Write (ManifestHasher h) b =
     (case ManifestHasher_Write h b of
        Inl e \<Rightarrow> Inl e
      | Inr h' \<Rightarrow> Inr (ManifestHasher h', length b))"
| "Hasher_Write (StdHasher k dat) b = Inr (StdHasher k (dat @ b), length b)"

fun Hasher_Sum :: "(nat \<Rightarrow> byte list \<Rightarrow> byte list) \<Rightarrow> Hasher \<Rightarrow> byte list \<Rightarrow> error + byte list" where
  "Hasher_Sum std (BlobHasher p k) b = Inr (GetHashValue (ChunkParser_GetRootNode p) k b)"
| "Hasher_Sum std (ManifestHasher h) b = ManifestHasher_Sum h b"
| "Hasher_Sum std (StdHasher k dat) b = Inr (b @ std k dat)"

record Generator =
  dg_instance :: string
  dg_partialHash :: Hasher
  dg_sizeBytes :: int

definition NewGenerator :: "Digest \<Rightarrow> error + Generator" where
  "NewGenerator d =
     (case GetInstance d of
        Inl e \<Rightarrow> Inl e
      | Inr instance \<Rightarrow>
          (case NewHasher d of
             Inl e \<Rightarrow> Inl e
           | Inr h \<Rightarrow> Inr \<lparr> dg_instance = instance, dg_partialHash = h, dg_sizeBytes = 0 \<rparr>))"

definition Generator_Write :: "Generator \<Rightarrow> byte list \<Rightarrow> error + Generator" where
  "Generator_Write dg p =
     (case Hasher_Write (dg_partialHash dg) p of
        Inl e \<Rightarrow> Inl e
      | Inr (h, n) \<Rightarrow>
          Inr (dg\<lparr> dg_partialHash := h, dg_sizeBytes := int64 (dg_sizeBytes dg + int n) \<rparr>))"

fun Generator_Writes :: "Generator \<Rightarrow> byte list list \<Rightarrow> error + Generator" where
  "Generator_Writes dg [] = Inr dg"
| "Generator_Writes dg (p # ps) =
     (case Generator_Write dg p of
        Inl e \<Rightarrow> Inl e
      | Inr dg' \<Rightarrow> Generator_Writes dg' ps)"

definition Generator_Sum :: "(nat \<Rightarrow> byte list \<Rightarrow> byte list) \<Rightarrow> Generator \<Rightarrow> error + Digest" where
  "Generator_Sum std dg =
     (case Hasher_Sum std (dg_partialHash dg) [] of
        Inl e \<Rightarrow> Inl e
      | Inr hashBytes \<Rightarrow>
          Inr (newDigestUnchecked (dg_instance dg) (hex_EncodeToString hashBytes)
                 (dg_sizeBytes dg)))"

section \<open>Buffers\<close>

text \<open>
  A \<open>ChunkReader\<close> is a forward-only, finite iterator: it hands out its chunks one by
  one and afterwards answers every \<open>Read\<close> with its final error, \<open>io.EOF\<close> at a
  regular end of data.
\<close>

datatype ChunkReader = ChunkReader (cr_chunks: "byte list list") (cr_final: error)

fun ChunkReader_Read :: "ChunkReader \<Rightarrow> (error + byte list) \<times> ChunkReader" where
  "ChunkReader_Read (ChunkReader [] e) = (Inl e, ChunkReader [] e)"
| "ChunkReader_Read (ChunkReader (c # cs) e) = (Inr c, ChunkReader cs e)"

record ChunkPolicy =
  minimumSizeBytes :: int
  defaultSizeBytes :: int
  maximumSizeBytes :: int

definition chunkSizeDontCare :: ChunkPolicy where
  "chunkSizeDontCare =
     \<lparr> minimumSizeBytes = 1, defaultSizeBytes = 64 * 1024, maximumSizeBytes = 2 ^ 63 - 1 \<rparr>"

definition ChunkSizeExactly :: "int \<Rightarrow> ChunkPolicy" where
  "ChunkSizeExactly sizeBytes =
     \<lparr> minimumSizeBytes = sizeBytes, defaultSizeBytes = sizeBytes,
       maximumSizeBytes = sizeBytes \<rparr>"

definition ChunkSizeAtMost :: "int \<Rightarrow> ChunkPolicy" where
  "ChunkSizeAtMost sizeBytes =
     \<lparr> minimumSizeBytes = 1, defaultSizeBytes = sizeBytes, maximumSizeBytes = sizeBytes \<rparr>"

text \<open>
  \<open>Buffer\<close> is an interface. A buffer handed out by a backing store is represented by
  what its operations return: \<open>ReadAt\<close> takes the length of the slice to fill and the
  offset, and returns the bytes it copied (their number is Go's \<open>n\<close>) and the error.
\<close>

record Buffer =
  buf_GetSizeBytes :: "error + int"
  buf_ToByteSlice :: "int \<Rightarrow> error + byte list"
  buf_ReadAt :: "nat \<Rightarrow> int \<Rightarrow> byte list \<times> error option"
  buf_ToChunkReader :: "int \<Rightarrow> ChunkPolicy \<Rightarrow> ChunkReader"

text \<open>
  Modelled from the spec: \<open>util.StatusWrap\<close> is not among the sources. Every
  propagated error is wrapped with context (section 7): the wrapped error is a status
  that keeps the code and puts the context before the message, as the expected errors
  of the tests show (\<open>Failed to load manifest: Buffer is ...\<close>). An error that is not
  a status, such as \<open>io.EOF\<close>, has the code \<open>Unknown\<close> and its text as the message.
  A panic is not an error value: it is not wrapped and goes on as a panic.
\<close>

fun StatusWrap :: "error \<Rightarrow> string \<Rightarrow> error" where
  "StatusWrap (Status c msg) ctx = Status c (ctx @ '': '' @ msg)"
| "StatusWrap EOF ctx = Status Unknown (ctx @ '': EOF'')"
| "StatusWrap (Panic msg) ctx = Panic msg"

text \<open>
  Modelled from the spec: \<open>NewBufferFromError\<close> is not among the sources. Every
  operation of the buffer returns the error.
\<close>

definition NewBufferFromError :: "error \<Rightarrow> Buffer" where
  "NewBufferFromError err =
     \<lparr> buf_GetSizeBytes = Inl err,
       buf_ToByteSlice = (\<lambda>maximumSizeBytes. Inl err),
       buf_ReadAt = (\<lambda>plen off. ([], Some err)),
       buf_ToChunkReader = (\<lambda>off chunkPolicy. ChunkReader [] err) \<rparr>"

text \<open>Cutting data into chunks of \<open>k\<close> bytes; only the last one may be shorter.\<close>

function chop :: "nat \<Rightarrow> byte list \<Rightarrow> byte list list" where
  "chop k xs = (if k = 0 \<or> xs = [] then [] else take k xs # chop k (drop k xs))"
  by pat_completeness auto
termination
  by (relation "measure (\<lambda>(k, xs). length xs)") auto

declare chop.simps [simp del]

text \<open>
  Modelled from the spec: \<open>NewValidatedBufferFromByteSlice\<close> is not among the sources.
  The buffer holds its bytes, which are not checked against any digest. \<open>ToByteSlice\<close>
  fails with \<open>InvalidArgument\<close> beyond the maximum size, \<open>ReadAt\<close> follows the contract
  of section 4.4 (negative offsets fail with \<open>InvalidArgument\<close>; a read that reaches the end
  of the data returns \<open>io.EOF\<close> with the bytes copied), and \<open>ToChunkReader\<close> rejects
  offsets out of range and cuts the data from the offset on into chunks of the maximum
  size of the policy.
\<close>

definition NewValidatedBufferFromByteSlice :: "byte list \<Rightarrow> Buffer" where
  "NewValidatedBufferFromByteSlice dat =
     \<lparr> buf_GetSizeBytes = Inr (int (length dat)),
       buf_ToByteSlice =
         (\<lambda>maximumSizeBytes.
            if maximumSizeBytes < int (length dat)
            then Inl (Status InvalidArgument ''Buffer exceeds the maximum size permitted'')
            else Inr dat),
       buf_ReadAt =
         (\<lambda>plen off.
            if off < 0 then ([], Some (Status InvalidArgument ''Negative read offset''))
            else if int (length dat) < off then ([], Some EOF)
            else (take plen (drop (nat off) dat),
                  if length (take plen (drop (nat off) dat)) < plen then Some EOF else None)),
       buf_ToChunkReader =
         (\<lambda>off chunkPolicy.
            if off < 0 \<or> int (length dat) < off
            then ChunkReader [] (Status InvalidArgument ''Buffer offset out of range'')
            else ChunkReader (chop (nat (maximumSizeBytes chunkPolicy)) (drop (nat off) dat))
                   EOF) \<rparr>"

subsection \<open>The concatenating buffer\<close>

text \<open>
  The fetcher returns a buffer and the offset at which that buffer starts; in the model
  it can also panic, since the fetcher of the decomposing store parses a manifest.
\<close>

type_synonym SmallBufferFetcher = "int \<Rightarrow> error + (Buffer \<times> int)"

record casConcatenatingBuffer =
  ccb_digest :: Digest
  ccb_fetcher :: SmallBufferFetcher

definition NewCASConcatenatingBuffer :: "Digest \<Rightarrow> SmallBufferFetcher \<Rightarrow> casConcatenatingBuffer" where
  "NewCASConcatenatingBuffer d fetcher = \<lparr> ccb_digest = d, ccb_fetcher = fetcher \<rparr>"

text \<open>
  \<open>ReadAt\<close>: the loop keeps the room left in \<open>p\<close>, the offset, the count \<open>nTotal\<close>
  and, for the record, the bytes copied so far. The result is \<open>None\<close> when the loop runs
  forever, a panic, or \<open>nTotal\<close>, the bytes copied and the error returned. Slicing
  \<open>p[n:]\<close> panics when the small buffer claims more bytes than there was room for.
\<close>

partial_function (option) casConcatenatingBuffer_ReadAt_loop ::
  "casConcatenatingBuffer \<Rightarrow> nat \<Rightarrow> int \<Rightarrow> int \<Rightarrow> byte list \<Rightarrow>
   (error + (int \<times> byte list \<times> error option)) option" where
  "casConcatenatingBuffer_ReadAt_loop b plen off nTotal copied =
     (case GetSizeBytes (ccb_digest b) of
        Inl e \<Rightarrow> Some (Inl e)
      | Inr sizeBytes \<Rightarrow>
          if off \<ge> sizeBytes then Some (Inr (nTotal, copied, Some EOF))
          else if plen = 0 then Some (Inr (nTotal, copied, None))
          else
            (case ccb_fetcher b off of
               Inl e \<Rightarrow> Some (Inl e)
             | Inr (smallBuffer, smallBufferOffset) \<Rightarrow>
                 (case buf_ReadAt smallBuffer plen (int64 (off - smallBufferOffset)) of
                    (chunk, err) \<Rightarrow>
                      if err \<noteq> None \<and> err \<noteq> Some EOF
                      then Some (Inr (int64 (nTotal + int (length chunk)), copied @ chunk, err))
                      else if plen < length chunk
                      then Some (Inl (Panic ''slice bounds out of range''))
                      else casConcatenatingBuffer_ReadAt_loop b (plen - length chunk)
                             (int64 (off + int (length chunk)))
                             (int64 (nTotal + int (length chunk))) (copied @ chunk))))"

definition casConcatenatingBuffer_ReadAt ::
  "casConcatenatingBuffer \<Rightarrow> nat \<Rightarrow> int \<Rightarrow>
   (error + (int \<times> byte list \<times> error option)) option" where
  "casConcatenatingBuffer_ReadAt b plen off =
     (if off < 0 then Some (Inr (0, [], Some (Status InvalidArgument ''Negative read offset'')))
      else casConcatenatingBuffer_ReadAt_loop b plen off 0 [])"

section \<open>The decomposing orchestrator\<close>

text \<open>
  The backing store is a collaborator: a state \<open>'s\<close> and the three operations of the
  \<open>BlobAccess\<close> interface. \<open>Get\<close> and \<open>FindMissing\<close> read the state, \<open>Put\<close> returns
  the next one. A \<open>digest.Set\<close> is the list of its items. Nothing is assumed about how
  the answers of the three operations relate to each other.
\<close>

record 's BlobAccess =
  ba_Get :: "'s \<Rightarrow> Digest \<Rightarrow> Buffer"
  ba_Put :: "'s \<Rightarrow> Digest \<Rightarrow> Buffer \<Rightarrow> error option \<times> 's"
  ba_FindMissing :: "'s \<Rightarrow> Digest list \<Rightarrow> error + Digest list"

record 's decomposingBlobAccess =
  dba_base :: "'s BlobAccess"
  dba_blockSizeBytes :: int
  dba_maximumManifestSizeBytes :: int

definition NewDecomposingBlobAccess ::
  "'s BlobAccess \<Rightarrow> int \<Rightarrow> int \<Rightarrow> 's decomposingBlobAccess" where
  "NewDecomposingBlobAccess base blockSize maximumManifestSize =
     \<lparr> dba_base = base, dba_blockSizeBytes = blockSize,
       dba_maximumManifestSizeBytes = maximumManifestSize \<rparr>"

text \<open>The calls issued to the backing store, in the order in which they are issued.\<close>

datatype call = CallGet Digest | CallPut Digest | CallFindMissing "Digest list"

subsection \<open>Get\<close>

text \<open>
  The buffer returned by \<open>Get\<close> is one of the backing store (also the error buffer for a
  manifest that does not load) or a concatenating buffer over the blocks. The fetcher
  asks the manifest parser for the digest of the block and gets that block from the
  backing store. \<open>Inl\<close> is a panic of \<open>ToManifest\<close>.
\<close>

datatype DecomposedBuffer = BaseBuffer Buffer | ConcatenatingBuffer casConcatenatingBuffer

definition decomposing_Get ::
  "'s decomposingBlobAccess \<Rightarrow> 's \<Rightarrow> Digest \<Rightarrow> error + DecomposedBuffer" where
  "decomposing_Get ba s d =
     (case ToManifest d (int64 (dba_blockSizeBytes ba)) of
        Inl e \<Rightarrow> Inl e
      | Inr None \<Rightarrow> Inr (BaseBuffer (ba_Get (dba_base ba) s d))
      | Inr (Some (manifestDigest, manifestParser)) \<Rightarrow>
          (case buf_ToByteSlice (ba_Get (dba_base ba) s manifestDigest)
                  (dba_maximumManifestSizeBytes ba) of
             Inl err \<Rightarrow>
               Inr (BaseBuffer (NewBufferFromError (StatusWrap err ''Failed to load manifest'')))
           | Inr manifest \<Rightarrow>
               Inr (ConcatenatingBuffer
                 (NewCASConcatenatingBuffer d
                    (\<lambda>offset.
                       case GetBlockDigest manifestParser manifest offset of
                         Inl e \<Rightarrow> Inl e
                       | Inr (blockDigest, blockOffset) \<Rightarrow>
                           Inr (ba_Get (dba_base ba) s blockDigest, blockOffset))))))"

subsection \<open>Put\<close>

lemma ChunkReader_Read_shorter:
  "ChunkReader_Read r = (Inr block, r') \<Longrightarrow> length (cr_chunks r') < length (cr_chunks r)"
  by (cases r rule: ChunkReader_Read.cases) auto

text \<open>
  The loop of \<open>Put\<close>: read a block, append its node to the manifest, store the block.
  It returns the manifest or the error, the state of the backing store and the calls.
\<close>

function Put_loop ::
  "'s BlobAccess \<Rightarrow> blake3zccManifestParser \<Rightarrow> ChunkReader \<Rightarrow> byte list \<Rightarrow> int \<Rightarrow> 's \<Rightarrow>
   call list \<Rightarrow> (error + byte list) \<times> 's \<times> call list" where
  "Put_loop base manifestParser r manifest offset s calls =
     (case ChunkReader_Read r of
        (Inl err, r') \<Rightarrow>
          if err = EOF then (Inr manifest, s, calls) else (Inl err, s, calls)
      | (Inr block, r') \<Rightarrow>
          (case AppendBlockDigest manifestParser manifest block of
             Inl e \<Rightarrow> (Inl e, s, calls)
           | Inr (manifest', blockDigest) \<Rightarrow>
               (case ba_Put base s blockDigest (NewValidatedBufferFromByteSlice block) of
                  (Some err, s') \<Rightarrow>
                    (Inl (StatusWrap err
                       (''Failed to store block at offset '' @ fmt_d offset @
                        '' with digest '' @ val blockDigest)),
                     s', calls @ [CallPut blockDigest])
                | (None, s') \<Rightarrow>
                    Put_loop base manifestParser r' manifest'
                      (int64 (offset + int (length block))) s'
                      (calls @ [CallPut blockDigest]))))"
  by pat_completeness auto
termination
  by (relation "measure (\<lambda>(base, mp, r, manifest, offset, s, calls). length (cr_chunks r))")
     (auto dest: ChunkReader_Read_shorter [OF sym])

declare Put_loop.simps [simp del]

text \<open>
  \<open>Put\<close> returns the error (\<open>None\<close> for \<open>nil\<close>), the state of the backing store and the
  calls it issued to the backing store.
\<close>

definition decomposing_Put ::
  "'s decomposingBlobAccess \<Rightarrow> 's \<Rightarrow> Digest \<Rightarrow> Buffer \<Rightarrow> error option \<times> 's \<times> call list" where
  "decomposing_Put ba s d b =
     (case ToManifest d (int64 (dba_blockSizeBytes ba)) of
        Inl e \<Rightarrow> (Some e, s, [])
      | Inr None \<Rightarrow>
          (case ba_Put (dba_base ba) s d b of (err, s') \<Rightarrow> (err, s', [CallPut d]))
      | Inr (Some (manifestDigest, manifestParser)) \<Rightarrow>
          (let r = buf_ToChunkReader b 0 (ChunkSizeExactly (dba_blockSizeBytes ba))
           in case GetSizeBytes manifestDigest of
                Inl e \<Rightarrow> (Some e, s, [])
              | Inr manifestSizeBytes \<Rightarrow>
                  if manifestSizeBytes > int64 (dba_maximumManifestSizeBytes ba)
                  then (Some (Status InvalidArgument
                          (''Buffer requires a manifest that is '' @ fmt_d manifestSizeBytes @
                           '' bytes in size, while a maximum of '' @
                           fmt_d (dba_maximumManifestSizeBytes ba) @ '' bytes is permitted'')),
                        s, [])
                  else
                    (case Put_loop (dba_base ba) manifestParser r [] 0 s [] of
                       (Inl e, s', calls) \<Rightarrow> (Some e, s', calls)
                     | (Inr manifest, s', calls) \<Rightarrow>
                         (case ba_Put (dba_base ba) s' manifestDigest
                                 (NewValidatedBufferFromByteSlice manifest) of
                            (Some err, s'') \<Rightarrow>
                              (Some (StatusWrap err ''Failed to store manifest''), s'',
                               calls @ [CallPut manifestDigest])
                          | (None, s'') \<Rightarrow> (None, s'', calls @ [CallPut manifestDigest])))))"

subsection \<open>FindMissing\<close>

record blobToCheck =
  btc_blobDigest :: Digest
  btc_manifestParser :: blake3zccManifestParser

text \<open>
  The queue of block digests to check. \<open>pending\<close> maps a block digest to the composed
  digests that need it.
\<close>

record findMissingQueue =
  q_missingComposed :: "Digest list"
  q_batchSize :: nat
  q_pending :: "(Digest \<times> Digest list) list"

text \<open>\<open>status.Code\<close>: the code of a status, \<open>Unknown\<close> for any other error.\<close>

fun status_Code :: "error \<Rightarrow> codes" where
  "status_Code (Status c msg) = c"
| "status_Code e = Unknown"

definition pending_lookup :: "(Digest \<times> Digest list) list \<Rightarrow> Digest \<Rightarrow> Digest list" where
  "pending_lookup pending k = (case map_of pending k of None \<Rightarrow> [] | Some v \<Rightarrow> v)"

definition queue_finalize ::
  "'s BlobAccess \<Rightarrow> 's \<Rightarrow> findMissingQueue \<Rightarrow> error + findMissingQueue" where
  "queue_finalize base s q =
     (case ba_FindMissing base s (map fst (q_pending q)) of
        Inl err \<Rightarrow> Inl err
      | Inr missingBlocks \<Rightarrow>
          Inr (q\<lparr> q_missingComposed :=
                 fold (\<lambda>blockDigest missing.
                         fold List.insert (pending_lookup (q_pending q) blockDigest) missing)
                   missingBlocks (q_missingComposed q) \<rparr>))"

definition pending_add ::
  "(Digest \<times> Digest list) list \<Rightarrow> Digest \<Rightarrow> Digest \<Rightarrow> (Digest \<times> Digest list) list" where
  "pending_add pending blockDigest blobDigest =
     (case map_of pending blockDigest of
        None \<Rightarrow> pending @ [(blockDigest, [blobDigest])]
      | Some blobs \<Rightarrow>
          map (\<lambda>(k, v). if k = blockDigest then (k, List.insert blobDigest v) else (k, v))
            pending)"

definition queue_add ::
  "'s BlobAccess \<Rightarrow> 's \<Rightarrow> findMissingQueue \<Rightarrow> Digest \<Rightarrow> Digest \<Rightarrow> error + findMissingQueue" where
  "queue_add base s q blockDigest blobDigest =
     (if length (q_pending q) \<ge> q_batchSize q then
        (case queue_finalize base s q of
           Inl err \<Rightarrow> Inl err
         | Inr q' \<Rightarrow> Inr (q'\<lparr> q_pending := pending_add [] blockDigest blobDigest \<rparr>))
      else Inr (q\<lparr> q_pending := pending_add (q_pending q) blockDigest blobDigest \<rparr>))"

text \<open>
  The first loop: composed digests are replaced by the digests of their manifests, and
  remembered under them.
\<close>

definition summaries_append ::
  "(Digest \<times> blobToCheck list) list \<Rightarrow> Digest \<Rightarrow> blobToCheck \<Rightarrow>
   (Digest \<times> blobToCheck list) list" where
  "summaries_append summaries manifestDigest b =
     (case map_of summaries manifestDigest of
        None \<Rightarrow> summaries @ [(manifestDigest, [b])]
      | Some bs \<Rightarrow>
          map (\<lambda>(k, v). if k = manifestDigest then (k, v @ [b]) else (k, v)) summaries)"

fun FindMissing_partition ::
  "int \<Rightarrow> Digest list \<Rightarrow> (Digest \<times> blobToCheck list) list \<Rightarrow> Digest list \<Rightarrow>
   error + ((Digest \<times> blobToCheck list) list \<times> Digest list)" where
  "FindMissing_partition blockSize [] summariesToCheck initialDigests =
     Inr (summariesToCheck, initialDigests)"
| "FindMissing_partition blockSize (blobDigest # rest) summariesToCheck initialDigests =
     (case ToManifest blobDigest blockSize of
        Inl e \<Rightarrow> Inl e
      | Inr (Some (manifestDigest, manifestParser)) \<Rightarrow>
          FindMissing_partition blockSize rest
            (summaries_append summariesToCheck manifestDigest
               \<lparr> btc_blobDigest = blobDigest, btc_manifestParser = manifestParser \<rparr>)
            (List.insert manifestDigest initialDigests)
      | Inr None \<Rightarrow>
          FindMissing_partition blockSize rest summariesToCheck
            (List.insert blobDigest initialDigests))"

text \<open>
  The second loop: the composed digests of manifests reported missing are missing, and
  their manifests need no further look.
\<close>

fun FindMissing_skip ::
  "Digest list \<Rightarrow> (Digest \<times> blobToCheck list) list \<Rightarrow> Digest list \<Rightarrow>
   (Digest \<times> blobToCheck list) list \<times> Digest list" where
  "FindMissing_skip [] summariesToCheck missingComposed = (summariesToCheck, missingComposed)"
| "FindMissing_skip (manifestDigest # rest) summariesToCheck missingComposed =
     FindMissing_skip rest
       (filter (\<lambda>(k, v). k \<noteq> manifestDigest) summariesToCheck)
       (fold (\<lambda>b missing. List.insert (btc_blobDigest b) missing)
          (case map_of summariesToCheck manifestDigest of None \<Rightarrow> [] | Some bs \<Rightarrow> bs)
          missingComposed)"

text \<open>
  The walk over the blocks of one composed digest. It follows the offsets the manifest
  parser returns and need not end: \<open>None\<close> is a walk that runs forever.
\<close>

partial_function (option) FindMissing_blocks ::
  "'s BlobAccess \<Rightarrow> 's \<Rightarrow> byte list \<Rightarrow> blobToCheck \<Rightarrow> int \<Rightarrow> int \<Rightarrow> findMissingQueue \<Rightarrow>
   (error + findMissingQueue) option" where
  "FindMissing_blocks base s manifest b sizeBytes currentOffset q =
     (if currentOffset < sizeBytes then
        (case GetBlockDigest (btc_manifestParser b) manifest currentOffset of
           Inl e \<Rightarrow> Some (Inl e)
         | Inr (blockDigest, blockOffset) \<Rightarrow>
             (case queue_add base s q blockDigest (btc_blobDigest b) of
                Inl e \<Rightarrow> Some (Inl e)
              | Inr q' \<Rightarrow>
                  (case GetSizeBytes blockDigest of
                     Inl e \<Rightarrow> Some (Inl e)
                   | Inr n \<Rightarrow>
                       FindMissing_blocks base s manifest b sizeBytes
                         (int64 (blockOffset + n)) q')))
      else Some (Inr q))"

fun FindMissing_blobs ::
  "'s BlobAccess \<Rightarrow> 's \<Rightarrow> byte list \<Rightarrow> blobToCheck list \<Rightarrow> findMissingQueue \<Rightarrow>
   (error + findMissingQueue) option" where
  "FindMissing_blobs base s manifest [] q = Some (Inr q)"
| "FindMissing_blobs base s manifest (b # rest) q =
     (case GetSizeBytes (btc_blobDigest b) of
        Inl e \<Rightarrow> Some (Inl e)
      | Inr sizeBytes \<Rightarrow>
          (case FindMissing_blocks base s manifest b sizeBytes 0 q of
             None \<Rightarrow> None
           | Some (Inl e) \<Rightarrow> Some (Inl e)
           | Some (Inr q') \<Rightarrow> FindMissing_blobs base s manifest rest q'))"

text \<open>
  The third loop, over the manifests reported present: a manifest that loads has the
  blocks of its blobs queued; one that fails to load with \<open>NotFound\<close> has its blobs
  counted missing; any other failure ends \<open>FindMissing\<close> with the wrapped error.
\<close>

fun FindMissing_summaries ::
  "'s decomposingBlobAccess \<Rightarrow> 's \<Rightarrow> (Digest \<times> blobToCheck list) list \<Rightarrow> findMissingQueue \<Rightarrow>
   (error + findMissingQueue) option" where
  "FindMissing_summaries ba s [] q = Some (Inr q)"
| "FindMissing_summaries ba s ((manifestDigest, blobsToCheck) # rest) q =
     (case buf_ToByteSlice (ba_Get (dba_base ba) s manifestDigest)
             (dba_maximumManifestSizeBytes ba) of
        Inr manifest \<Rightarrow>
          (case FindMissing_blobs (dba_base ba) s manifest blobsToCheck q of
             None \<Rightarrow> None
           | Some (Inl e) \<Rightarrow> Some (Inl e)
           | Some (Inr q') \<Rightarrow> FindMissing_summaries ba s rest q')
      | Inl err \<Rightarrow>
          if status_Code err = NotFound then
            FindMissing_summaries ba s rest
              (q\<lparr> q_missingComposed :=
                   fold (\<lambda>b missing. List.insert (btc_blobDigest b) missing) blobsToCheck
                     (q_missingComposed q) \<rparr>)
          else Some (Inl (StatusWrap err (''Failed to load manifest '' @ val manifestDigest))))"

text \<open>
  \<open>FindMissing\<close>. Go ranges over the map \<open>summariesToCheck\<close> in an order of its own
  choosing: \<open>order\<close> is that choice.
\<close>

definition decomposing_FindMissing ::
  "((Digest \<times> blobToCheck list) list \<Rightarrow> (Digest \<times> blobToCheck list) list) \<Rightarrow>
   's decomposingBlobAccess \<Rightarrow> 's \<Rightarrow> Digest list \<Rightarrow> (error + Digest list) option" where
  "decomposing_FindMissing order ba s digests =
     (case FindMissing_partition (int64 (dba_blockSizeBytes ba)) digests [] [] of
        Inl e \<Rightarrow> Some (Inl e)
      | Inr (summariesToCheck, initialDigests) \<Rightarrow>
          (case ba_FindMissing (dba_base ba) s initialDigests of
             Inl err \<Rightarrow> Some (Inl err)
           | Inr missingInitially \<Rightarrow>
               (case FindMissing_skip missingInitially summariesToCheck [] of
                  (summariesToCheck', missingComposed) \<Rightarrow>
                    (case FindMissing_summaries ba s (order summariesToCheck')
                            \<lparr> q_missingComposed = missingComposed, q_batchSize = 1000,
                              q_pending = [] \<rparr> of
                       None \<Rightarrow> None
                     | Some (Inl e) \<Rightarrow> Some (Inl e)
                     | Some (Inr q) \<Rightarrow>
                         (case queue_finalize (dba_base ba) s q of
                            Inl err \<Rightarrow> Some (Inl err)
                          | Inr q' \<Rightarrow>
                              Some (Inr (List.union
                                (filter (\<lambda>d. d \<in> set digests) missingInitially)
                                (q_missingComposed q'))))))))"

text \<open>
  A backing store held in memory, as a test double: \<open>Put\<close> materialises the buffer and
  stores its bytes under the digest, \<open>Get\<close> hands them back, and a digest never stored
  is not found.
\<close>

definition memory_store :: "(Digest \<Rightarrow> byte list option) BlobAccess" where
  "memory_store =
     \<lparr> ba_Get = (\<lambda>s d. case s d of
                     None \<Rightarrow> NewBufferFromError (Status NotFound ''Object not found'')
                   | Some dat \<Rightarrow> NewValidatedBufferFromByteSlice dat),
       ba_Put = (\<lambda>s d b. case buf_ToByteSlice b (2 ^ 63 - 1) of
                     Inl err \<Rightarrow> (Some err, s)
                   | Inr dat \<Rightarrow> (None, s(d \<mapsto> dat))),
       ba_FindMissing = (\<lambda>s ds. Inr (filter (\<lambda>d. s d = None) ds)) \<rparr>"

text \<open>
  A backing store that reports every digest present and then fails to load it with the
  given error, as a test double for a manifest that disappears between the two calls.
\<close>

definition failing_store :: "error \<Rightarrow> unit BlobAccess" where
  "failing_store err =
     \<lparr> ba_Get = (\<lambda>s d. NewBufferFromError err),
       ba_Put = (\<lambda>s d b. (Some err, s)),
       ba_FindMissing = (\<lambda>s ds. Inr []) \<rparr>"

section \<open>Properties of digests\<close>

lemma int64_id: "is_int64 x \<Longrightarrow> int64 x = x"
  unfolding is_int64_def int64_def
  by (simp add: signed_take_bit_int_eq_self)

lemma uint64_id: "0 \<le> x \<Longrightarrow> x < 2 ^ 64 \<Longrightarrow> uint64 x = x"
  unfolding uint64_def by (simp add: take_bit_int_eq_self)

lemma digits_chars: "c \<in> set (digits n) \<Longrightarrow> 48 \<le> (of_char c :: nat) \<and> (of_char c :: nat) \<le> 57"
proof (induction n arbitrary: c rule: digits.induct)
  case (1 n)
  show ?case
  proof (cases "n < 10")
    case True
    with "1.prems" have "c = char_of (48 + n)" by (subst (asm) digits.simps) simp
    moreover from True have "(48 + n) mod 256 = 48 + n" by simp
    ultimately show ?thesis using True by simp
  next
    case False
    from "1.prems" False have "c \<in> set (digits (n div 10)) \<or> c = char_of (48 + n mod 10)"
      by (subst (asm) digits.simps) auto
    then show ?thesis
    proof
      assume "c \<in> set (digits (n div 10))"
      with "1.IH" False show ?thesis by blast
    next
      assume c: "c = char_of (48 + n mod 10)"
      have "n mod 10 < 10" by simp
      then have "(48 + n mod 10) mod 256 = 48 + n mod 10" by simp
      with c show ?thesis by simp
    qed
  qed
qed

lemma digits_no_dash: "CHR ''-'' \<notin> set (digits n)"
  using digits_chars [of "CHR ''-''" n] by auto

lemma unpack_hashEnd_found:
  "i \<le> length h \<Longrightarrow> CHR ''-'' \<notin> set (drop i h) \<Longrightarrow>
   unpack_hashEnd (h @ CHR ''-'' # rest) i = Inr (length h)"
proof (induction "length h - i" arbitrary: i)
  case 0
  then have "i = length h" by simp
  then show ?case by (subst unpack_hashEnd.simps) simp
next
  case (Suc k)
  then have lt: "i < length h" by simp
  then have "h ! i \<in> set (drop i h)"
    by (metis Cons_nth_drop_Suc list.set_intros(1))
  with Suc.prems have ne: "h ! i \<noteq> CHR ''-''" by auto
  have "CHR ''-'' \<notin> set (drop (Suc i) h)"
    using Suc.prems(2) by (metis in_set_dropD drop_drop plus_1_eq_Suc)
  moreover have "k = length h - Suc i" using Suc.hyps(2) by simp
  ultimately have "unpack_hashEnd (h @ CHR ''-'' # rest) (Suc i) = Inr (length h)"
    using Suc.hyps(1) lt by simp
  then show ?case using lt ne
    by (subst unpack_hashEnd.simps) (simp add: nth_append)
qed

lemma unpack_sizeBytes_digits:
  "CHR ''-'' \<notin> set ds \<Longrightarrow>
   unpack_sizeBytes (pre @ ds @ CHR ''-'' # rest) (length pre) acc =
     Inr (fold digit_step ds acc, length pre + length ds)"
proof (induction ds arbitrary: pre acc)
  case Nil
  then show ?case by (subst unpack_sizeBytes.simps) simp
next
  case (Cons c ds)
  have "unpack_sizeBytes ((pre @ [c]) @ ds @ CHR ''-'' # rest) (length (pre @ [c])) (digit_step c acc) =
     Inr (fold digit_step ds (digit_step c acc), length (pre @ [c]) + length ds)"
    using Cons.prems by (intro Cons.IH) simp
  then show ?case using Cons.prems
    by (subst unpack_sizeBytes.simps) (auto simp add: nth_append)
qed

lemma of_char_char_of_digit:
  assumes "k < 10"
  shows "(of_char (char_of (48 + k :: nat)) :: int) = 48 + int k"
proof -
  have "(of_char (char_of (48 + k :: nat)) :: int) = int (of_char (char_of (48 + k :: nat)))"
    by (simp only: of_nat_of_char)
  also have "\<dots> = int ((48 + k) mod 256)"
    by (simp only: of_char_of)
  also have "\<dots> = 48 + int k"
    using assms by simp
  finally show ?thesis .
qed

lemma fold_digits: "int n < 2 ^ 63 \<Longrightarrow> fold digit_step (digits n) 0 = int n"
proof (induction n rule: digits.induct)
  case (1 n)
  have range: "is_int64 (int n)" using "1.prems" by (simp add: is_int64_def)
  show ?case
  proof (cases "n < 10")
    case True
    then show ?thesis using range
      by (subst digits.simps) (simp add: digit_step_def of_char_char_of_digit int64_id)
  next
    case False
    have "int (n div 10) < 2 ^ 63" using "1.prems" by (simp add: zdiv_int) 
    with "1.IH" False have ih: "fold digit_step (digits (n div 10)) 0 = int (n div 10)" by simp
    have "n mod 10 < 10" by simp
    then have oc: "(of_char (char_of (48 + n mod 10)) :: int) = 48 + int (n mod 10)"
      by (rule of_char_char_of_digit)
    have "int (n div 10) * 10 + int (n mod 10) = int n"
      by (metis of_nat_add of_nat_mult of_nat_numeral div_mult_mod_eq)
    then show ?thesis using False ih oc range
      by (subst digits.simps) (simp add: digit_step_def int64_id zdiv_int zmod_int)
  qed
qed

lemma unpack_constructed:
  assumes "32 \<le> length h" and "CHR ''-'' \<notin> set (drop 32 h)" and "0 \<le> S" and "S < 2 ^ 63"
  shows "unpack (Digest (h @ ''-'' @ fmt_d S @ ''-'' @ inst)) =
           Inr (length h, S, length h + 1 + length (fmt_d S))"
proof -
  let ?v = "h @ ''-'' @ fmt_d S @ ''-'' @ inst"
  have he: "unpack_hashEnd ?v 32 = Inr (length h)"
    using unpack_hashEnd_found [OF assms(1,2)] by simp
  have fm: "fmt_d S = digits (nat S)" using assms(3) by (simp add: fmt_d_def)
  have "unpack_sizeBytes ((h @ ''-'') @ digits (nat S) @ CHR ''-'' # inst) (length (h @ ''-'')) 0 =
          Inr (fold digit_step (digits (nat S)) 0, length (h @ ''-'') + length (digits (nat S)))"
    by (rule unpack_sizeBytes_digits) (rule digits_no_dash)
  moreover have "fold digit_step (digits (nat S)) 0 = S"
    using fold_digits [of "nat S"] assms(3,4) by simp
  ultimately have "unpack_sizeBytes ?v (length h + 1) 0 = Inr (S, length h + 1 + length (fmt_d S))"
    using fm by simp
  with he show ?thesis by (simp add: unpack_def)
qed


lemma GetSizeBytes_constructed:
  assumes "32 \<le> length h" and "CHR ''-'' \<notin> set (drop 32 h)" and "0 \<le> S" and "S < 2 ^ 63"
  shows "GetSizeBytes (Digest (h @ ''-'' @ fmt_d S @ ''-'' @ inst)) = Inr S"
  using unpack_constructed [OF assms] by (simp add: GetSizeBytes_def)

lemma convertSizeToBlockCount_pos:
  assumes "0 < B" and "0 \<le> S" and "S < 2 ^ 63" and "B < 2 ^ 63"
  shows "convertSizeToBlockCount S B = Inr ((S + B - 1) div B)"
proof -
  have uS: "uint64 S = S" and uB: "uint64 B = B"
    using assms by (simp_all add: uint64_id)
  have "uint64 (S + B - 1) = S + B - 1"
    using assms by (intro uint64_id) simp_all
  moreover have "0 \<le> (S + B - 1) div B"
    using assms by (simp add: pos_imp_zdiv_nonneg_iff)
  moreover have "(S + B - 1) div B \<le> S"
  proof -
    have "S * 1 \<le> S * B"
      using assms by (intro mult_left_mono) simp_all
    then have "S + B - 1 \<le> (B - 1) + S * B" by simp
    then have "(S + B - 1) div B \<le> ((B - 1) + S * B) div B"
      using assms(1) by (rule zdiv_mono1)
    also have "\<dots> = (B - 1) div B + S"
      using assms(1) by simp
    also have "(B - 1) div B = 0"
      using assms(1) by simp
    finally show ?thesis by simp
  qed
  ultimately have "is_int64 ((S + B - 1) div B)"
    using assms by (simp add: is_int64_def)
  then show ?thesis
    using assms uS uB \<open>uint64 (S + B - 1) = S + B - 1\<close>
    by (simp add: convertSizeToBlockCount_def int64_id)
qed

lemma go_rem_pos:
  assumes "0 < B" and "0 \<le> S" and "S < 2 ^ 63"
  shows "go_rem S B = Inr (S mod B)"
proof -
  have eq: "sgn S * (\<bar>S\<bar> mod \<bar>B\<bar>) = S mod B"
    using assms by (cases "S = 0") (simp_all add: sgn_if)
  have "is_int64 (S mod B)"
  proof -
    have "0 \<le> S mod B" using assms by simp
    moreover have "S mod B \<le> S" using assms by (simp add: zmod_le_nonneg_dividend)
    ultimately have "- (2 ^ 63) \<le> S mod B \<and> S mod B < 2 ^ 63"
      using assms(3) by linarith
    then show ?thesis by (simp add: is_int64_def)
  qed
  then have "int64 (S mod B) = S mod B" by (rule int64_id)
  then have "int64 (sgn S * (\<bar>S\<bar> mod \<bar>B\<bar>)) = S mod B" by (simp only: eq)
  then show ?thesis using assms(1) unfolding go_rem_def by simp
qed

lemma ToManifest_B3Z_constructed:
  assumes h: "28 \<le> length h" "CHR ''-'' \<notin> set h"
    and S: "S < 2 ^ 63" and B: "0 < B" "B < S"
  shows "ToManifest (Digest (''B3Z:'' @ h @ ''-'' @ fmt_d S @ ''-'' @ inst)) B =
     Inr (Some
       (Digest (''B3ZM:'' @ h @ ''-'' @
          fmt_d (let m = int64 (((S + B - 1) div B) * 64)
                 in if 0 < S mod B \<and> S mod B \<le> 1024 then int64 (m + 33) else m) @ ''-'' @ inst),
        newBLAKE3ZCCManifestParser inst S B (length h div 2)))"
proof -
  let ?h = "''B3Z:'' @ h"
  let ?d = "Digest (?h @ ''-'' @ fmt_d S @ ''-'' @ inst)"
  have S0: "0 \<le> S" using B by simp
  have "unpack ?d = Inr (length ?h, S, length ?h + 1 + length (fmt_d S))"
    using h S0 S by (intro unpack_constructed) (auto dest: in_set_dropD)
  moreover have "convertSizeToBlockCount S B = Inr ((S + B - 1) div B)"
    using B S S0 by (intro convertSizeToBlockCount_pos) simp_all
  moreover have "go_rem S B = Inr (S mod B)"
    using B S S0 by (intro go_rem_pos) simp_all
  moreover have "\<not> S \<le> B" using B by simp
  ultimately show ?thesis
    by (simp add: ToManifest_def Let_def blake3zccChunkNodeSizeBytes_def
        blake3zccParentNodeSizeBytes_def)
qed

lemma uint64_nonzero:
  assumes "is_int64 B" and "B \<noteq> 0"
  shows "uint64 B \<noteq> 0"
proof
  assume "uint64 B = 0"
  then have "2 ^ 64 dvd B"
    by (simp add: uint64_def take_bit_int_def dvd_eq_mod_eq_0)
  with assms(2) have "\<bar>2 ^ 64 :: int\<bar> \<le> \<bar>B\<bar>"
    by (intro dvd_imp_le_int)
  with assms(1) show False
    by (simp add: is_int64_def abs_if split: if_splits)
qed

lemma is_lower_hex_not_dash: "is_lower_hex c \<Longrightarrow> c \<noteq> CHR ''-''"
  by (auto simp: is_lower_hex_def)

text \<open>Rules that evaluate \<open>fmt_d\<close> on a numeral.\<close>

lemmas fmt_d_eval = fmt_d_def digits.simps char_of_def bit_Suc_0_iff

subsection \<open>Construction\<close>

lemma newDigestOther_rejects:
  assumes "sizeBytes < 0 \<or> length hash \<notin> {32, 40, 64, 96, 128} \<or> \<not> list_all is_lower_hex hash"
  shows "\<exists>msg. newDigestOther instance hash sizeBytes = Inl (Status InvalidArgument msg)"
  using assms by (auto simp: newDigestOther_def list_ex_iff list_all_iff)

lemma NewDigest_rejects_negative:
  assumes "sizeBytes < 0"
  shows "\<exists>msg. NewDigest instance hash sizeBytes = Inl (Status InvalidArgument msg)"
  using assms
  by (simp add: NewDigest_def newDigestBLAKE3ZCC_def newDigestBLAKE3ZCCManifest_def
      newDigestOther_def)

text \<open>
  C5. The claim: \<open>NewDigest\<close> fails with \<open>InvalidArgument\<close> on every malformed hash,
  also under the prefixes \<open>B3Z:\<close> and \<open>B3ZM:\<close>. The code validates the hash only in
  \<open>newDigestOther\<close>; the two BLAKE3ZCC constructors carry \<open>TODO: Validate hash!\<close>
  and accept any string. Here the hash \<open>B3Z:zz\<close>, whose two characters are not
  hexadecimal, yields a digest and no error.
\<close>

theorem NewDigest_accepts_malformed_BLAKE3ZCC_hash:
  "NewDigest ''instance'' ''B3Z:zz'' 1 = Inr (Digest ''B3Z:zz-1-instance'')"
  by code_simp

subsection \<open>Conversion to a manifest digest\<close>

text \<open>
  C3, as amended. A digest without the prefix \<open>B3Z:\<close> always yields \<open>ok = false\<close>.
  For a digest with the prefix whose declared size is \<open>S\<close>, and a block size other than
  zero, \<open>ToManifest\<close> returns, and it returns \<open>ok = true\<close> exactly when \<open>S\<close> is
  strictly greater than the block size.
\<close>

theorem ToManifest_ok_iff:
  "(\<not> prefix ''B3Z:'' (val d) \<longrightarrow> ToManifest d B = Inr None) \<and>
   (prefix ''B3Z:'' (val d) \<and> GetSizeBytes d = Inr S \<and> B \<noteq> 0 \<and> is_int64 B \<longrightarrow>
      (\<exists>r. ToManifest d B = Inr r \<and> (r \<noteq> None \<longleftrightarrow> B < S)))"
proof (intro conjI impI)
  assume "\<not> prefix ''B3Z:'' (val d)"
  then show "ToManifest d B = Inr None"
    by (simp add: ToManifest_def)
next
  assume a: "prefix ''B3Z:'' (val d) \<and> GetSizeBytes d = Inr S \<and> B \<noteq> 0 \<and> is_int64 B"
  then obtain hashEnd sizeBytesEnd where u: "unpack d = Inr (hashEnd, S, sizeBytesEnd)"
    by (auto simp: GetSizeBytes_def split: sum.splits)
  from a have nz: "uint64 B \<noteq> 0"
    by (simp add: uint64_nonzero)
  show "\<exists>r. ToManifest d B = Inr r \<and> (r \<noteq> None \<longleftrightarrow> B < S)"
  proof (cases "S \<le> B")
    case True
    with a u show ?thesis by (simp add: ToManifest_def)
  next
    case False
    with a u nz show ?thesis
      by (simp add: ToManifest_def convertSizeToBlockCount_def go_rem_def Let_def)
  qed
qed

theorem ToManifest_ok_iff_witness:
  "prefix ''B3Z:'' (val (Digest ''B3Z:73c932bec255516b229488d6af3d29fc-8193-instance'')) \<and>
   GetSizeBytes (Digest ''B3Z:73c932bec255516b229488d6af3d29fc-8193-instance'') = Inr 8193 \<and>
   is_int64 8192 \<and>
   (\<exists>r. ToManifest (Digest ''B3Z:73c932bec255516b229488d6af3d29fc-8193-instance'') 8192 = Inr r \<and>
        r \<noteq> None) \<and>
   ToManifest (Digest ''8b1a9953c4611296a827abf8c47804d7-8193-instance'') 8192 = Inr None"
proof -
  let ?d = "Digest ''B3Z:73c932bec255516b229488d6af3d29fc-8193-instance''"
  have p: "prefix ''B3Z:'' (val ?d)" by simp
  have s: "GetSizeBytes ?d = Inr 8193" by code_simp
  have i: "is_int64 8192" by (simp add: is_int64_def)
  have n: "\<not> prefix ''B3Z:'' (val (Digest ''8b1a9953c4611296a827abf8c47804d7-8193-instance''))"
    by simp
  show ?thesis
    using ToManifest_ok_iff [of ?d 8192 8193]
      ToManifest_ok_iff [of "Digest ''8b1a9953c4611296a827abf8c47804d7-8193-instance''" 8192 0]
      p s i n
    by simp
qed

text \<open>
  C3 as stated fails for the block size zero: the digest below is a BLAKE3ZCC digest of
  size 1, which exceeds the block size 0, but \<open>convertSizeToBlockCount\<close> divides by the
  block size and the call panics instead of returning \<open>ok = true\<close>.
\<close>

theorem ToManifest_zero_blockSize_panics:
  "prefix ''B3Z:'' (val (Digest ''B3Z:73c932bec255516b229488d6af3d29fc-1-instance'')) \<and>
   GetSizeBytes (Digest ''B3Z:73c932bec255516b229488d6af3d29fc-1-instance'') = Inr 1 \<and>
   ToManifest (Digest ''B3Z:73c932bec255516b229488d6af3d29fc-1-instance'') 0 =
     Inl (Panic ''integer divide by zero'')"
  by code_simp




section \<open>The chaining value stack never underflows\<close>

text \<open>
  The stack holds at least one entry per one bit of the node count, which is what the
  merge loop of \<open>AppendNode\<close> pops. \<open>popcount\<close> counts the one bits.
\<close>

function popcount :: "nat \<Rightarrow> nat" where
  "popcount n = (if n = 0 then 0 else n mod 2 + popcount (n div 2))"
  by pat_completeness auto
termination
  by (relation "measure id") auto

declare popcount.simps [simp del]

definition stack_inv :: "ChainingValueStack \<Rightarrow> bool" where
  "stack_inv s = (popcount (unat (cvs_totalNodes s)) \<le> length (cvs_stack s))"

lemma popcount_0: "popcount 0 = 0"
  by (subst popcount.simps) simp

lemma popcount_odd: "odd n \<Longrightarrow> popcount n = Suc (popcount (n div 2))"
  by (subst popcount.simps) (auto simp: odd_iff_mod_2_eq_one)

lemma popcount_even: "even n \<Longrightarrow> popcount n = popcount (n div 2)"
  by (subst popcount.simps) (auto simp: popcount_0)

lemma word_and_1_odd: "(t :: u64) AND 1 \<noteq> 0 \<longleftrightarrow> odd (unat t)"
proof -
  have "t AND 1 = 0 \<longleftrightarrow> t mod 2 = 0" by (simp add: and_one_eq)
  also have "\<dots> \<longleftrightarrow> unat (t mod 2) = 0" by (simp add: unat_eq_0)
  also have "\<dots> \<longleftrightarrow> unat t mod 2 = 0" by (simp add: unat_mod)
  also have "\<dots> \<longleftrightarrow> even (unat t)" by (simp add: even_iff_mod_2_eq_zero)
  finally show ?thesis by simp
qed

lemma unat_drop_bit_1: "unat (drop_bit 1 (t :: u64)) = unat t div 2"
  by (simp add: drop_bit_eq_div unat_div)

lemma AppendNode_merge_ok:
  "popcount (unat t) \<le> length stack \<Longrightarrow>
   \<exists>stack' cv'. AppendNode_merge stack cv t = Inr (stack', cv') \<and>
      popcount (unat t + 1) \<le> length stack' + 1"
proof (induction stack cv t rule: AppendNode_merge.induct)
  case (1 stack cv t)
  show ?case
  proof (cases "t AND 1 \<noteq> 0")
    case True
    then have odd: "odd (unat t)" by (simp add: word_and_1_odd)
    then have pc: "popcount (unat t) = Suc (popcount (unat t div 2))"
      by (rule popcount_odd)
    with "1.prems" have ne: "stack \<noteq> []" by auto
    have k: "unat (drop_bit 1 t) = unat t div 2"
      by (rule unat_drop_bit_1)
    have "popcount (unat (drop_bit 1 t)) \<le> length (butlast stack)"
      unfolding k using pc "1.prems" by simp
    from "1.IH" [OF True ne this] obtain stack' cv' where
      r: "AppendNode_merge (butlast stack)
            (truncate_cv (compress iv (concatenate (last stack) cv) 0
               (of_nat maximumBlockSize) flagParent)) (drop_bit 1 t) = Inr (stack', cv')"
      and l: "popcount (unat (drop_bit 1 t) + 1) \<le> length stack' + 1"
      by blast
    have "even (unat t + 1)" using odd by simp
    then have "popcount (unat t + 1) = popcount ((unat t + 1) div 2)"
      by (rule popcount_even)
    also have "(unat t + 1) div 2 = unat t div 2 + 1"
      using odd by (metis add.commute even_succ_div_two odd_succ_div_two plus_1_eq_Suc Suc_eq_plus1)
    finally have "popcount (unat t + 1) \<le> length stack' + 1"
      using l unfolding k by simp
    with r True ne show ?thesis
      by (subst AppendNode_merge.simps) simp
  next
    case False
    then have ev: "even (unat t)" by (simp add: word_and_1_odd)
    then have "odd (unat t + 1)" by simp
    then have "popcount (unat t + 1) = Suc (popcount ((unat t + 1) div 2))"
      by (rule popcount_odd)
    also have "(unat t + 1) div 2 = unat t div 2"
      using ev by simp
    also have "popcount (unat t div 2) = popcount (unat t)"
      using ev by (simp add: popcount_even)
    finally have "popcount (unat t + 1) \<le> length stack + 1"
      using "1.prems" by simp
    with False show ?thesis
      by (subst AppendNode_merge.simps) simp
  qed
qed

lemma AppendNode_ok:
  assumes "stack_inv s"
  shows "\<exists>s'. AppendNode s n = Inr s' \<and> stack_inv s'"
proof -
  let ?t = "cvs_totalNodes s"
  from assms have "popcount (unat ?t) \<le> length (cvs_stack s)"
    by (simp add: stack_inv_def)
  from AppendNode_merge_ok [OF this] obtain stack' cv' where
    r: "AppendNode_merge (cvs_stack s)
          (truncate_cv (compress (n_chainingValue n) (n_m n) 0 (n_blockSize n) (n_flags n))) ?t
        = Inr (stack', cv')"
    and l: "popcount (unat ?t + 1) \<le> length stack' + 1"
    by blast
  have "popcount (unat (?t + 1)) \<le> popcount (unat ?t + 1)"
  proof (cases "?t + 1 = 0")
    case True
    then show ?thesis by (simp add: popcount_0)
  next
    case False
    then have "1 + ?t \<noteq> 0" by (simp add: add.commute)
    then have "unat (1 + ?t) = Suc (unat ?t)" by (rule unatSuc)
    then have "unat (?t + 1) = unat ?t + 1" by (simp add: add.commute)
    then show ?thesis by simp
  qed
  with l have "popcount (unat (?t + 1)) \<le> length (stack' @ [cv'])" by simp
  with r show ?thesis
    by (simp add: AppendNode_def stack_inv_def)
qed

lemma stack_inv_New: "stack_inv NewChainingValueStack"
  by (simp add: stack_inv_def NewChainingValueStack_def popcount_0)

section \<open>Unmarshalling succeeds on long entries and panics on short ones\<close>

lemma unmarshal_words_ok:
  "4 * k \<le> length entry \<Longrightarrow>
   \<exists>ws. unmarshal_words k entry = Inr (ws, drop (4 * k) entry) \<and> length ws = k"
proof (induction k arbitrary: entry)
  case 0
  then show ?case by simp
next
  case (Suc k)
  then have "4 * k \<le> length (drop 4 entry)" by simp
  from Suc.IH [OF this] obtain ws where
    "unmarshal_words k (drop 4 entry) = Inr (ws, drop (4 * k) (drop 4 entry))" "length ws = k"
    by blast
  moreover have "\<exists>w. Uint32 entry = Inr w"
    using Suc.prems by (simp add: Uint32_def)
  ultimately show ?case
    by (auto simp: add.commute)
qed

lemma unmarshal_words_short:
  "length entry < 4 * k \<Longrightarrow> unmarshal_words k entry = Inl (Panic ''index out of range'')"
proof (induction k arbitrary: entry)
  case 0
  then show ?case by simp
next
  case (Suc k)
  show ?case
  proof (cases "length entry < 4")
    case True
    then show ?thesis by (simp add: Uint32_def)
  next
    case False
    then obtain w where w: "Uint32 entry = Inr w" by (auto simp: Uint32_def)
    have "length (drop 4 entry) < 4 * k" using Suc.prems False by simp
    from Suc.IH [OF this] w show ?thesis by simp
  qed
qed

lemma unmarshalBLAKE3ZCCParentNode_ok:
  "64 \<le> length entry \<Longrightarrow> \<exists>n. unmarshalBLAKE3ZCCParentNode entry = Inr n"
  using unmarshal_words_ok [of 16 entry]
  by (auto simp: unmarshalBLAKE3ZCCParentNode_def)

lemma unmarshalBLAKE3ZCCChunkNode_ok:
  assumes "97 \<le> length entry"
  shows "\<exists>n. unmarshalBLAKE3ZCCChunkNode entry = Inr n"
proof -
  from assms obtain cv where a: "unmarshal_words 8 entry = Inr (cv, drop 32 entry)"
    using unmarshal_words_ok [of 8 entry] by auto
  have "4 * 16 \<le> length (drop 32 entry)" using assms by simp
  from unmarshal_words_ok [OF this]
  obtain m where b: "unmarshal_words 16 (drop 32 entry) = Inr (m, drop (4 * 16) (drop 32 entry))"
    by blast
  from assms have "length (drop (4 * 16) (drop 32 entry)) \<noteq> 0" by simp
  with a b show ?thesis
    by (simp add: unmarshalBLAKE3ZCCChunkNode_def)
qed

lemma unmarshalBLAKE3ZCCChunkNode_short:
  assumes "length entry < 96"
  shows "unmarshalBLAKE3ZCCChunkNode entry = Inl (Panic ''index out of range'')"
proof (cases "length entry < 32")
  case True
  then show ?thesis
    using unmarshal_words_short [of entry 8] by (simp add: unmarshalBLAKE3ZCCChunkNode_def)
next
  case False
  then obtain cv where a: "unmarshal_words 8 entry = Inr (cv, drop 32 entry)"
    using unmarshal_words_ok [of 8 entry] by auto
  have "length (drop 32 entry) < 4 * 16" using assms by simp
  then have "unmarshal_words 16 (drop 32 entry) = Inl (Panic ''index out of range'')"
    by (rule unmarshal_words_short)
  with a show ?thesis by (simp add: unmarshalBLAKE3ZCCChunkNode_def)
qed

section \<open>The manifest hasher\<close>

text \<open>
  The invariant of the hasher: its buffer has 97 bytes, of which at most 97 are in use,
  and its stack satisfies \<open>stack_inv\<close>. \<open>write_residual e l\<close> is the number of
  buffered bytes after writing \<open>l\<close> bytes into a buffer holding \<open>e\<close>.
\<close>

definition mh_inv :: "blake3zccManifestHasher \<Rightarrow> bool" where
  "mh_inv h = (length (mh_entry h) = 97 \<and> mh_entrySize h \<le> 97 \<and>
               stack_inv (mh_chainingValueStack h))"

definition write_residual :: "nat \<Rightarrow> nat \<Rightarrow> nat" where
  "write_residual e l =
     (if l = 0 then e else if e + l \<le> 97 then e + l else (e + l - 34) mod 64 + 34)"

lemma mod64_small: "33 + r \<le> 97 \<Longrightarrow> 1 \<le> r \<Longrightarrow> (r + 63) mod 64 = r - (1::nat)"
proof -
  assume a: "33 + r \<le> 97" "1 \<le> r"
  then have "r + 63 = (r - 1) + 64" by simp
  then have "(r + 63) mod 64 = (r - 1) mod 64" by (simp only: mod_add_self2)
  also have "\<dots> = r - 1" using a by simp
  finally show ?thesis .
qed

lemma mod64_large: "\<not> r \<le> 64 \<Longrightarrow> (r - Suc 0) mod 64 = (r + 63) mod (64::nat)"
proof -
  assume a: "\<not> r \<le> 64"
  then have "r + 63 = (r - Suc 0) + 64" by simp
  then show ?thesis by (simp only: mod_add_self2)
qed

lemma write_residual_step:
  assumes "e \<le> 97" and "97 - e < l"
  shows "write_residual 33 (l - (97 - e)) = write_residual e l"
proof -
  define r where "r = l - (97 - e)"
  have r1: "1 \<le> r" and r2: "e + l = r + 97" using assms by (simp_all add: r_def)
  have a: "\<not> e + l \<le> 97" and b: "l \<noteq> 0"
    using assms by simp_all
  have c: "e + l - 34 = r + 63"
    using r2 by linarith
  have lhs: "write_residual e l = (r + 63) mod 64 + 34"
    using a b by (simp add: write_residual_def c)
  have rhs: "write_residual 33 r = (r + 63) mod 64 + 34"
  proof (cases "33 + r \<le> 97")
    case True
    with r1 show ?thesis by (simp add: write_residual_def mod64_small)
  next
    case False
    with r1 show ?thesis by (simp add: write_residual_def mod64_large)
  qed
  show ?thesis using lhs rhs by (simp add: r_def)
qed

lemma shifted_entry_length:
  "length (xs :: byte list) = 97 \<Longrightarrow>
   length (drop (nat blake3zccParentNodeSizeBytes) xs @
           drop (nat blake3zccChunkNodeSizeBytes - nat blake3zccParentNodeSizeBytes) xs) = 97"
  by (simp add: blake3zccChunkNodeSizeBytes_def blake3zccParentNodeSizeBytes_def)

lemma ManifestHasher_Write_ok:
  "mh_inv h \<Longrightarrow>
   \<exists>h'. ManifestHasher_Write h p = Inr h' \<and> mh_inv h' \<and>
        mh_entrySize h' = write_residual (mh_entrySize h) (length p) \<and>
        mh_outputSizeBytes h' = mh_outputSizeBytes h"
proof (induction h p rule: ManifestHasher_Write.induct)
  case (1 h p)
  define e where "e = mh_entrySize h"
  define n where "n = min (97 - e) (length p)"
  define entry where "entry = take e (mh_entry h) @ take n p @ drop (e + n) (mh_entry h)"
  define h1 where "h1 = h\<lparr> mh_entry := entry, mh_entrySize := mh_entrySize h + n \<rparr>"
  define p1 where "p1 = drop n p"
  from "1.prems" have len: "length (mh_entry h) = 97" and e: "e \<le> 97"
    and st: "stack_inv (mh_chainingValueStack h)"
    by (simp_all add: mh_inv_def e_def)
  have ci: "copy_into (nat blake3zccChunkNodeSizeBytes) (mh_entry h) (mh_entrySize h) p = (entry, n)"
    by (simp add: copy_into_def blake3zccChunkNodeSizeBytes_def Let_def entry_def n_def e_def)
  have len1: "length entry = 97"
    using len e by (simp add: entry_def n_def min_def)
  have guard: "\<not> nat blake3zccChunkNodeSizeBytes < mh_entrySize h"
    using e by (simp add: blake3zccChunkNodeSizeBytes_def e_def)
  have h1: "mh_entry h1 = entry" "mh_entrySize h1 = e + n"
    "mh_chainingValueStack h1 = mh_chainingValueStack h"
    "mh_outputSizeBytes h1 = mh_outputSizeBytes h"
    by (simp_all add: h1_def e_def)
  have unfold: "ManifestHasher_Write h p =
      (if length p1 = 0 then Inr h1
       else (case unmarshalBLAKE3ZCCParentNode (mh_entry h1) of
               Inl e \<Rightarrow> Inl e
             | Inr node \<Rightarrow>
                 (case AppendNode (mh_chainingValueStack h1) node of
                    Inl e \<Rightarrow> Inl e
                  | Inr s \<Rightarrow>
                      ManifestHasher_Write
                        (h1\<lparr> mh_chainingValueStack := s,
                             mh_entry :=
                               drop (nat blake3zccParentNodeSizeBytes) (mh_entry h1) @
                               drop (nat blake3zccChunkNodeSizeBytes -
                                     nat blake3zccParentNodeSizeBytes) (mh_entry h1),
                             mh_entrySize :=
                               nat blake3zccChunkNodeSizeBytes -
                               nat blake3zccParentNodeSizeBytes \<rparr>) p1)))"
    using guard ci
    by (subst ManifestHasher_Write.simps) (simp only: if_False prod.case Let_def h1_def p1_def)
  show ?case
  proof (cases "length p1 = 0")
    case True
    then have small: "length p \<le> 97 - e" by (simp add: p1_def n_def min_def split: if_splits)
    then have n: "n = length p" by (simp add: n_def)
    have "write_residual e (length p) = e + length p"
      using small e by (simp add: write_residual_def)
    moreover have "mh_inv h1"
      using len1 st e small n by (simp add: mh_inv_def h1)
    ultimately show ?thesis
      using True n unfolding unfold by (simp add: h1 e_def [symmetric])
  next
    case False
    then have big: "97 - e < length p" by (simp add: p1_def n_def min_def split: if_splits)
    then have n: "n = 97 - e" by (simp add: n_def)
    obtain node where un: "unmarshalBLAKE3ZCCParentNode (mh_entry h1) = Inr node"
      using unmarshalBLAKE3ZCCParentNode_ok [of entry] len1 by (auto simp: h1)
    obtain s where ap: "AppendNode (mh_chainingValueStack h1) node = Inr s"
      and st': "stack_inv s"
      using AppendNode_ok [of "mh_chainingValueStack h1" node] st by (auto simp: h1)
    define h2 where "h2 = h1\<lparr> mh_chainingValueStack := s,
                 mh_entry := drop (nat blake3zccParentNodeSizeBytes) (mh_entry h1) @
                             drop (nat blake3zccChunkNodeSizeBytes -
                                   nat blake3zccParentNodeSizeBytes) (mh_entry h1),
                 mh_entrySize := nat blake3zccChunkNodeSizeBytes -
                                 nat blake3zccParentNodeSizeBytes \<rparr>"
    have h2: "mh_entrySize h2 = 33" "mh_outputSizeBytes h2 = mh_outputSizeBytes h"
      "mh_chainingValueStack h2 = s"
      "length (mh_entry h2) = 97"
      using shifted_entry_length [OF len1]
      by (simp_all add: h2_def h1 blake3zccChunkNodeSizeBytes_def blake3zccParentNodeSizeBytes_def)
    have inv2: "mh_inv h2"
      using st' by (simp add: mh_inv_def h2)
    have "\<exists>h'. ManifestHasher_Write h2 p1 = Inr h' \<and> mh_inv h' \<and>
        mh_entrySize h' = write_residual (mh_entrySize h2) (length p1) \<and>
        mh_outputSizeBytes h' = mh_outputSizeBytes h2"
      unfolding h2_def
      by (rule "1.IH" [OF guard ci [symmetric] h1_def p1_def False un ap])
         (use inv2 in \<open>simp add: h2_def\<close>)
    then obtain h' where r: "ManifestHasher_Write h2 p1 = Inr h'" and i: "mh_inv h'"
      and es: "mh_entrySize h' = write_residual (mh_entrySize h2) (length p1)"
      and os: "mh_outputSizeBytes h' = mh_outputSizeBytes h2"
      by blast
    have "length p1 = length p - (97 - e)" using n by (simp add: p1_def)
    then have "mh_entrySize h' = write_residual e (length p)"
      using es write_residual_step [OF e big] by (simp add: h2)
    have "ManifestHasher_Write h p = ManifestHasher_Write h2 p1"
      unfolding unfold h2_def using False un ap by simp
    with r i os \<open>mh_entrySize h' = write_residual e (length p)\<close> show ?thesis
      by (simp add: h2 e_def)
  qed
qed

text \<open>
  \<open>residual T\<close> is the number of buffered bytes after \<open>T\<close> bytes went into a
  fresh hasher, however the bytes were split over the calls.
\<close>

definition residual :: "nat \<Rightarrow> nat" where
  "residual T = (if T \<le> 97 then T else (T - 34) mod 64 + 34)"

lemma write_residual_residual: "write_residual (residual T) l = residual (T + l)"
proof (cases "l = 0")
  case True
  then show ?thesis by (simp add: write_residual_def)
next
  case l: False
  show ?thesis
  proof (cases "T \<le> 97")
    case True
    with l show ?thesis by (simp add: write_residual_def residual_def)
  next
    case False
    define q where "q = (T - 34) mod 64"
    have q: "q < 64" by (simp add: q_def)
    have e: "residual T = q + 34" using False by (simp add: residual_def q_def)
    have "T + l - 34 = (T - 34) + l" using False by simp
    then have "(T + l - 34) mod 64 = (q + l) mod 64"
      by (simp add: q_def mod_add_left_eq)
    then have r: "residual (T + l) = (q + l) mod 64 + 34"
      using False by (simp add: residual_def)
    show ?thesis
    proof (cases "q + 34 + l \<le> 97")
      case True
      then have "(q + l) mod 64 = q + l" by simp
      with True l show ?thesis by (simp add: write_residual_def e r)
    next
      case False
      have "q + 34 + l - 34 = q + l" by simp
      with False l show ?thesis by (simp add: write_residual_def e r)
    qed
  qed
qed

lemma residual_parent: "1 \<le> n \<Longrightarrow> residual (64 * n) = 64"
proof (cases "n = 1")
  case True
  then show ?thesis by (simp add: residual_def)
next
  case False
  assume "1 \<le> n"
  define k where "k = n - 2"
  have k: "n = k + 2" using False \<open>1 \<le> n\<close> by (simp add: k_def)
  have "64 * n - 34 = 30 + 64 * (k + 1)" by (simp add: k)
  then have "(64 * n - 34) mod 64 = (30 + 64 * (k + 1)) mod 64" by (rule arg_cong)
  also have "\<dots> = 30 mod 64" by (rule mod_mult_self2)
  also have "\<dots> = 30" by (rule mod_less) simp
  finally show ?thesis using k by (simp add: residual_def)
qed

lemma residual_chunk: "residual (64 * n + 97) = 97"
proof (cases "n = 0")
  case True
  then show ?thesis by (simp add: residual_def)
next
  case False
  have "64 * n + 97 - 34 = 63 + 64 * n" by simp
  then have "(64 * n + 97 - 34) mod 64 = (63 + 64 * n) mod 64" by (rule arg_cong)
  also have "\<dots> = 63 mod 64" by (rule mod_mult_self2)
  also have "\<dots> = 63" by (rule mod_less) simp
  finally show ?thesis using False by (simp add: residual_def)
qed

lemma ManifestHasher_Writes_ok:
  "mh_inv h \<Longrightarrow> mh_entrySize h = residual T \<Longrightarrow>
   \<exists>h'. ManifestHasher_Writes h ps = Inr h' \<and> mh_inv h' \<and>
        mh_entrySize h' = residual (T + length (concat ps)) \<and>
        mh_outputSizeBytes h' = mh_outputSizeBytes h"
proof (induction ps arbitrary: h T)
  case Nil
  then show ?case by simp
next
  case (Cons p ps)
  from ManifestHasher_Write_ok [OF Cons.prems(1), of p] obtain h1 where
    w: "ManifestHasher_Write h p = Inr h1" and i: "mh_inv h1"
    and e: "mh_entrySize h1 = write_residual (mh_entrySize h) (length p)"
    and o: "mh_outputSizeBytes h1 = mh_outputSizeBytes h"
    by blast
  from e Cons.prems(2) have "mh_entrySize h1 = residual (T + length p)"
    by (simp add: write_residual_residual)
  from Cons.IH [OF i this, of ] obtain h' where
    "ManifestHasher_Writes h1 ps = Inr h'" "mh_inv h'"
    "mh_entrySize h' = residual (T + length p + length (concat ps))"
    "mh_outputSizeBytes h' = mh_outputSizeBytes h1"
    by blast
  with w o show ?case by (simp add: add.assoc)
qed

lemma mh_inv_new: "mh_inv (newBLAKE3ZCCManifestHasher k)"
  by (simp add: mh_inv_def newBLAKE3ZCCManifestHasher_def blake3zccChunkNodeSizeBytes_def
      stack_inv_New)

lemma ManifestHasher_Sum_ok:
  assumes "mh_inv h" and "mh_entrySize h = 64 \<or> mh_entrySize h = 97"
  shows "\<exists>out. ManifestHasher_Sum h b = Inr out"
proof -
  from assms(1) have len: "length (mh_entry h) = 97" by (simp add: mh_inv_def)
  obtain n1 where n1: "unmarshalBLAKE3ZCCChunkNode (mh_entry h) = Inr n1"
    using unmarshalBLAKE3ZCCChunkNode_ok [of "mh_entry h"] len by auto
  obtain n2 where n2: "unmarshalBLAKE3ZCCParentNode (mh_entry h) = Inr n2"
    using unmarshalBLAKE3ZCCParentNode_ok [of "mh_entry h"] len by auto
  from assms(2) n1 n2 show ?thesis
    by (auto simp: ManifestHasher_Sum_def blake3zccChunkNodeSizeBytes_def
        blake3zccParentNodeSizeBytes_def)
qed

text \<open>
  C9. When the bytes written to a fresh manifest hasher, in any partition into \<open>Write\<close>
  calls, number \<open>64 * n\<close> with \<open>n \<ge> 1\<close> or \<open>64 * n + 97\<close>, every
  \<open>Write\<close> returns, the buffered entry then holds exactly 64 or exactly 97 bytes, and
  \<open>Sum\<close> returns a hash: the panic \<open>Manifest has invalid size\<close> is not reached (nor
  any other).
\<close>

theorem ManifestHasher_valid_sizes_never_panic:
  assumes "length (concat ps) = 64 * n \<and> 1 \<le> n \<or> length (concat ps) = 64 * n + 97"
  shows "\<exists>h. ManifestHasher_Writes (newBLAKE3ZCCManifestHasher k) ps = Inr h \<and>
           (mh_entrySize h = 64 \<or> mh_entrySize h = 97) \<and>
           (\<exists>out. ManifestHasher_Sum h b = Inr out)"
proof -
  have "mh_entrySize (newBLAKE3ZCCManifestHasher k) = residual 0"
    by (simp add: newBLAKE3ZCCManifestHasher_def residual_def)
  from ManifestHasher_Writes_ok [OF mh_inv_new this, of ps] obtain h where
    w: "ManifestHasher_Writes (newBLAKE3ZCCManifestHasher k) ps = Inr h" and i: "mh_inv h"
    and e: "mh_entrySize h = residual (length (concat ps))"
    by auto
  from assms e have s: "mh_entrySize h = 64 \<or> mh_entrySize h = 97"
    by (auto simp: residual_parent residual_chunk)
  from ManifestHasher_Sum_ok [OF i s] w s show ?thesis by blast
qed

theorem ManifestHasher_valid_sizes_never_panic_witness:
  "length (concat [replicate 100 (0::byte), replicate 61 0]) = 64 * 1 + 97 \<and>
   (\<exists>h. ManifestHasher_Writes (newBLAKE3ZCCManifestHasher 32)
          [replicate 100 0, replicate 61 0] = Inr h \<and>
        (mh_entrySize h = 64 \<or> mh_entrySize h = 97) \<and>
        (\<exists>out. ManifestHasher_Sum h [] = Inr out))"
proof -
  have l: "length (concat [replicate 100 (0::byte), replicate 61 0]) = 64 * 1 + 97"
    by simp
  then have "length (concat [replicate 100 (0::byte), replicate 61 0]) = 64 * 1 \<and> 1 \<le> (1::nat) \<or>
     length (concat [replicate 100 (0::byte), replicate 61 0]) = 64 * 1 + 97"
    by (rule disjI2)
  from ManifestHasher_valid_sizes_never_panic [OF this, of 32 "[]"] l
  show ?thesis by (rule conjI [rotated])
qed

section \<open>The manifest parser\<close>

lemma go_div_nonneg:
  assumes "0 < B" and "0 \<le> a" and "a < 2 ^ 63"
  shows "go_div a B = Inr (a div B)"
proof -
  have "sgn a * sgn B * (\<bar>a\<bar> div \<bar>B\<bar>) = a div B"
    using assms by (cases "a = 0") (simp_all add: sgn_if)
  moreover have "is_int64 (a div B)"
  proof -
    have "0 \<le> a div B" using assms by (simp add: pos_imp_zdiv_nonneg_iff)
    moreover have "a div B \<le> a"
    proof (cases "a = 0")
      case True
      then show ?thesis by simp
    next
      case False
      with assms(2) have "0 < a" by simp
      then show ?thesis by (rule int_div_le_self)
    qed
    ultimately have "- (2 ^ 63) \<le> a div B \<and> a div B < 2 ^ 63"
      using assms(3) by linarith
    then show ?thesis by (simp add: is_int64_def)
  qed
  then have "int64 (a div B) = a div B" by (rule int64_id)
  ultimately have "int64 (sgn a * sgn B * (\<bar>a\<bar> div \<bar>B\<bar>)) = a div B" by simp
  then show ?thesis using assms(1) unfolding go_div_def by simp
qed

text \<open>
  C2. The claim: on the manifest built for a blob of size \<open>S\<close>, \<open>GetBlockDigest\<close>
  returns at every block start the digest \<open>AppendBlockDigest\<close> returned, and for
  \<open>B\<close> dividing \<open>S\<close> the digest of the final block has size \<open>B\<close>. The code
  takes \<open>blobSizeBytes % blockSizeBytes\<close> as the size of the final block, which is 0
  when \<open>B\<close> divides \<open>S\<close>; it then reads the final 64 byte parent entry as a
  97 byte chunk entry and panics, whatever the manifest holds: for a blob of \<open>k \<ge> 2\<close>
  whole blocks and any manifest of the declared \<open>k * 64\<close> bytes, the call at the
  start of the final block does not return.
\<close>

theorem GetBlockDigest_final_block_divisible:
  assumes "0 < B" and "2 \<le> k" and "k * B < 2 ^ 63" and "k * 64 < 2 ^ 63"
    and "length manifest = nat (k * 64)"
  shows "GetBlockDigest (newBLAKE3ZCCManifestParser inst (k * B) B hs) manifest ((k - 1) * B) =
           Inl (Panic ''index out of range'')"
proof -
  let ?mp = "newBLAKE3ZCCManifestParser inst (k * B) B hs"
  have kB: "0 \<le> k * B" using assms(1,2) by simp
  have off: "0 \<le> (k - 1) * B" "(k - 1) * B < 2 ^ 63"
  proof -
    show "0 \<le> (k - 1) * B" using assms(1,2) by simp
    have "(k - 1) * B \<le> k * B" using assms(1) by (intro mult_right_mono) simp_all
    with assms(3) show "(k - 1) * B < 2 ^ 63" by linarith
  qed
  have B63: "B < 2 ^ 63"
  proof -
    have "1 * B \<le> k * B" using assms(1,2) by (intro mult_right_mono) simp_all
    with assms(3) show ?thesis by simp
  qed
  have d: "go_div ((k - 1) * B) B = Inr (k - 1)"
    using go_div_nonneg [OF assms(1) off] assms(1) by simp
  have "(k * B + B - 1) div B = ((B - 1) + k * B) div B" by (simp add: algebra_simps)
  also have "\<dots> = (B - 1) div B + k" using assms(1) by simp
  also have "(B - 1) div B = 0" using assms(1) by simp
  finally have c: "convertSizeToBlockCount (k * B) B = Inr k"
    using convertSizeToBlockCount_pos [OF assms(1) kB assms(3) B63] by simp
  have r: "go_rem (k * B) B = Inr 0"
    using go_rem_pos [OF assms(1) kB assms(3)] by simp
  have k1: "int64 (k - 1) = k - 1"
    using assms(2,4) by (intro int64_id) (simp add: is_int64_def)
  have s: "int64 ((k - 1) * blake3zccParentNodeSizeBytes) = (k - 1) * 64"
    using assms(2,4) by (simp add: blake3zccParentNodeSizeBytes_def int64_id is_int64_def)
  have s0: "\<not> ((k - 1) * 64 < 0 \<or> int (length manifest) < (k - 1) * 64)"
    using assms(2,5) by simp
  have "length (drop (nat ((k - 1) * 64)) manifest) = 64"
    using assms(2,5) by (simp add: nat_diff_distrib' algebra_simps)
  then have u: "unmarshalBLAKE3ZCCChunkNode (drop (nat ((k - 1) * 64)) manifest) =
      Inl (Panic ''index out of range'')"
    by (intro unmarshalBLAKE3ZCCChunkNode_short) simp
  show ?thesis
    using d c r s0 u
    by (simp add: GetBlockDigest_def newBLAKE3ZCCManifestParser_def k1 s Let_def)
qed

theorem GetBlockDigest_final_block_divisible_witness:
  "length (replicate 128 (0::byte)) = nat (2 * 64) \<and>
   GetBlockDigest (newBLAKE3ZCCManifestParser ''instance'' 16384 8192 32)
     (replicate 128 0) 8192 = Inl (Panic ''index out of range'')"
  using GetBlockDigest_final_block_divisible
    [of 8192 2 "replicate 128 0" "''instance''" 32]
  by simp

section \<open>The chunk parser never panics\<close>

definition cp_inv :: "ChunkParser \<Rightarrow> bool" where
  "cp_inv p = (length (cp_block p) = 64 \<and> cp_blockSize p \<le> 64 \<and>
               stack_inv (cp_chainingValueStack p))"

lemma ChunkParser_Write_ok:
  "cp_inv p \<Longrightarrow> \<exists>p'. ChunkParser_Write p b = Inr p' \<and> cp_inv p'"
proof (induction p b rule: ChunkParser_Write.induct)
  case (1 p b)
  define n where "n = min (64 - cp_blockSize p) (length b)"
  define block where
    "block = take (cp_blockSize p) (cp_block p) @ take n b @ drop (cp_blockSize p + n) (cp_block p)"
  define p1 where "p1 = p\<lparr> cp_block := block, cp_blockSize := cp_blockSize p + n \<rparr>"
  define b1 where "b1 = drop n b"
  define m where "m = getBlock p1"
  define p2 where "p2 = p1\<lparr> cp_blockSize := 0 \<rparr>"
  from "1.prems" have len: "length (cp_block p) = 64" and bs: "cp_blockSize p \<le> 64"
    and st: "stack_inv (cp_chainingValueStack p)"
    by (simp_all add: cp_inv_def)
  have guard: "\<not> maximumBlockSize < cp_blockSize p"
    using bs by (simp add: maximumBlockSize_def)
  have ci: "copy_into maximumBlockSize (cp_block p) (cp_blockSize p) b = (block, n)"
    by (simp add: copy_into_def maximumBlockSize_def Let_def block_def n_def)
  have len1: "length block = 64"
    using len bs by (simp add: block_def n_def min_def)
  have inv1: "cp_inv p1"
    using len1 bs st by (simp add: cp_inv_def p1_def n_def)
  have inv2: "cp_inv p2"
    using len1 st by (simp add: cp_inv_def p2_def p1_def)
  have unfold: "ChunkParser_Write p b =
     (if length b1 = 0 then Inr p1
      else if cp_blocksRemaining p2 = 1 then
             (case AppendNode (cp_chainingValueStack p2)
                     (NewChunkNode (cp_chunkChainingValue p2) m
                        (of_nat maximumBlockSize) False) of
                Inl e \<Rightarrow> Inl e
              | Inr s \<Rightarrow>
                  ChunkParser_Write
                    (p2\<lparr> cp_chainingValueStack := s,
                         cp_blocksRemaining := maximumBlocksPerChunk,
                         cp_chunkChainingValue := iv,
                         cp_chunkStart := True \<rparr>) b1)
           else
             ChunkParser_Write
               (p2\<lparr> cp_blocksRemaining := cp_blocksRemaining p2 - 1,
                    cp_chunkChainingValue :=
                      truncate_cv (compress (cp_chunkChainingValue p2) m 0
                        (of_nat maximumBlockSize)
                        (if cp_chunkStart p2 then 0 OR flagChunkStart else 0)),
                    cp_chunkStart := False \<rparr>) b1)"
    using guard ci
    by (subst ChunkParser_Write.simps)
       (simp only: if_False prod.case Let_def p1_def b1_def m_def p2_def)
  show ?case
  proof (cases "length b1 = 0")
    case True
    with inv1 show ?thesis by (simp add: unfold)
  next
    case ne: False
    show ?thesis
    proof (cases "cp_blocksRemaining p2 = 1")
      case True
      obtain s where ap: "AppendNode (cp_chainingValueStack p2)
                     (NewChunkNode (cp_chunkChainingValue p2) m
                        (of_nat maximumBlockSize) False) = Inr s"
        and st': "stack_inv s"
        using AppendNode_ok inv2 unfolding cp_inv_def by blast
      define p3 where "p3 = p2\<lparr> cp_chainingValueStack := s,
                         cp_blocksRemaining := maximumBlocksPerChunk,
                         cp_chunkChainingValue := iv,
                         cp_chunkStart := True \<rparr>"
      have inv3: "cp_inv p3"
        using inv2 st' by (simp add: cp_inv_def p3_def)
      have "\<exists>p'. ChunkParser_Write p3 b1 = Inr p' \<and> cp_inv p'"
        unfolding p3_def
        by (rule "1.IH"(1) [OF guard ci [symmetric] p1_def b1_def ne m_def p2_def True ap])
           (use inv3 in \<open>simp add: p3_def\<close>)
      moreover have "ChunkParser_Write p b = ChunkParser_Write p3 b1"
        unfolding unfold p3_def using ne True ap by simp
      ultimately show ?thesis by simp
    next
      case False
      define p3 where "p3 = p2\<lparr> cp_blocksRemaining := cp_blocksRemaining p2 - 1,
                    cp_chunkChainingValue :=
                      truncate_cv (compress (cp_chunkChainingValue p2) m 0
                        (of_nat maximumBlockSize)
                        (if cp_chunkStart p2 then 0 OR flagChunkStart else 0)),
                    cp_chunkStart := False \<rparr>"
      have inv3: "cp_inv p3"
        using inv2 by (simp add: cp_inv_def p3_def)
      have "\<exists>p'. ChunkParser_Write p3 b1 = Inr p' \<and> cp_inv p'"
        unfolding p3_def
        by (rule "1.IH"(2) [OF guard ci [symmetric] p1_def b1_def ne m_def p2_def False])
           (use inv3 in \<open>simp add: p3_def\<close>)
      moreover have "ChunkParser_Write p b = ChunkParser_Write p3 b1"
        unfolding unfold p3_def using ne False by simp
      ultimately show ?thesis by simp
    qed
  qed
qed

lemma cp_inv_New: "cp_inv NewChunkParser"
  by (simp add: cp_inv_def NewChunkParser_def maximumBlockSize_def stack_inv_New)

section \<open>The digest generator\<close>

lemma hexdigit_lower: "is_lower_hex (hexdigit n)"
proof -
  have "list_all is_lower_hex ''0123456789abcdef''" by code_simp
  moreover have "n mod 16 < length ''0123456789abcdef''" by simp
  ultimately show ?thesis
    unfolding hexdigit_def list_all_iff using nth_mem by blast
qed

lemma hex_EncodeToString_lower: "list_all is_lower_hex (hex_EncodeToString bs)"
  by (induction bs) (simp_all add: hex_EncodeToString_def hexdigit_lower)

lemma is_lower_hex_not_B: "is_lower_hex c \<Longrightarrow> c \<noteq> CHR ''B''"
  by (auto simp: is_lower_hex_def)

lemma bare_hex_not_B3Z:
  assumes "list_all is_lower_hex hs"
  shows "\<not> prefix ''B3Z'' (hs @ CHR ''-'' # rest)"
proof (cases hs)
  case Nil
  then show ?thesis by simp
next
  case (Cons c cs)
  with assms have "c \<noteq> CHR ''B''" by (simp add: is_lower_hex_not_B)
  with Cons show ?thesis by simp
qed

lemma not_B3Z_not_B3Z_colon: "\<not> prefix ''B3Z'' v \<Longrightarrow> \<not> prefix ''B3Z:'' v"
proof
  assume a: "\<not> prefix ''B3Z'' v" and b: "prefix ''B3Z:'' v"
  have "prefix ''B3Z'' ''B3Z:''" by simp
  from this b have "prefix ''B3Z'' v" by (rule prefix_order.trans)
  with a show False by simp
qed

fun hasher_inv :: "Hasher \<Rightarrow> bool" where
  "hasher_inv (BlobHasher p k) = cp_inv p"
| "hasher_inv (ManifestHasher h) = mh_inv h"
| "hasher_inv (StdHasher k dat) = True"

fun is_BlobHasher :: "Hasher \<Rightarrow> bool" where
  "is_BlobHasher (BlobHasher p k) = True"
| "is_BlobHasher (ManifestHasher h) = False"
| "is_BlobHasher (StdHasher k dat) = False"

lemma Hasher_Write_ok:
  assumes "hasher_inv h"
  shows "\<exists>h'. Hasher_Write h b = Inr (h', length b) \<and> hasher_inv h' \<and>
              is_BlobHasher h' = is_BlobHasher h"
proof (cases h)
  case (BlobHasher p k)
  with assms ChunkParser_Write_ok [of p b] show ?thesis by auto
next
  case (ManifestHasher m)
  with assms ManifestHasher_Write_ok [of m b] show ?thesis by auto
next
  case (StdHasher k dat)
  then show ?thesis by simp
qed

lemma Generator_Writes_ok:
  "hasher_inv (dg_partialHash dg) \<Longrightarrow>
   \<exists>dg'. Generator_Writes dg ps = Inr dg' \<and> hasher_inv (dg_partialHash dg') \<and>
          is_BlobHasher (dg_partialHash dg') = is_BlobHasher (dg_partialHash dg)"
proof (induction ps arbitrary: dg)
  case Nil
  then show ?case by simp
next
  case (Cons p ps)
  from Hasher_Write_ok [OF Cons.prems, of p] obtain h' where
    w: "Hasher_Write (dg_partialHash dg) p = Inr (h', length p)" and i: "hasher_inv h'"
    and k: "is_BlobHasher h' = is_BlobHasher (dg_partialHash dg)"
    by blast
  define dg1 where
    "dg1 = dg\<lparr> dg_partialHash := h', dg_sizeBytes := int64 (dg_sizeBytes dg + int (length p)) \<rparr>"
  have gw: "Generator_Write dg p = Inr dg1"
    using w by (simp add: Generator_Write_def dg1_def)
  have "hasher_inv (dg_partialHash dg1)" using i by (simp add: dg1_def)
  from Cons.IH [OF this] obtain dg' where
    "Generator_Writes dg1 ps = Inr dg'" "hasher_inv (dg_partialHash dg')"
    "is_BlobHasher (dg_partialHash dg') = is_BlobHasher (dg_partialHash dg1)"
    by blast
  with gw k show ?case by (simp add: dg1_def)
qed

lemma Generator_Sum_shape:
  assumes "Generator_Sum std dg = Inr r"
  shows "(\<exists>hs rest. val r = hs @ CHR ''-'' # rest \<and> list_all is_lower_hex hs) \<and>
         \<not> prefix ''B3Z'' (val r) \<and> (\<forall>B. ToManifest r B = Inr None)"
proof -
  from assms obtain hashBytes where
    r: "r = newDigestUnchecked (dg_instance dg) (hex_EncodeToString hashBytes) (dg_sizeBytes dg)"
    by (auto simp: Generator_Sum_def split: sum.splits)
  define hs where "hs = hex_EncodeToString hashBytes"
  define rest where "rest = fmt_d (dg_sizeBytes dg) @ ''-'' @ dg_instance dg"
  have v: "val r = hs @ CHR ''-'' # rest"
    by (simp add: r newDigestUnchecked_def hs_def rest_def)
  have l: "list_all is_lower_hex hs"
    by (simp add: hs_def hex_EncodeToString_lower)
  have n: "\<not> prefix ''B3Z'' (val r)"
    unfolding v using l by (rule bare_hex_not_B3Z)
  then have "\<not> prefix ''B3Z:'' (val r)" by (rule not_B3Z_not_B3Z_colon)
  then have "\<forall>B. ToManifest r B = Inr None" by (simp add: ToManifest_def)
  with v l n show ?thesis by blast
qed

lemma Generator_Sum_BlobHasher:
  assumes "is_BlobHasher (dg_partialHash dg)"
  shows "\<exists>r. Generator_Sum std dg = Inr r"
  using assms by (cases "dg_partialHash dg") (simp_all add: Generator_Sum_def)

lemma prefix_take:
  assumes "prefix p v" and "length p \<le> n"
  shows "prefix p (take n v)"
proof -
  from assms(1) obtain r where "v = p @ r" by (auto simp: prefix_def)
  then have "take n v = p @ take (n - length p) r" using assms(2) by simp
  then show ?thesis by simp
qed


lemma unpack_hashEnd_bounds:
  "unpack_hashEnd v i = Inr he \<Longrightarrow> i \<le> he \<and> he < length v"
proof (induction v i rule: unpack_hashEnd.induct)
  case (1 v hashEnd)
  show ?case
  proof (cases "length v \<le> hashEnd")
    case True
    with "1.prems" show ?thesis by (subst (asm) unpack_hashEnd.simps) simp
  next
    case False
    show ?thesis
    proof (cases "v ! hashEnd = CHR ''-''")
      case True
      with False "1.prems" show ?thesis by (subst (asm) unpack_hashEnd.simps) simp
    next
      case ne: False
      with False "1.prems" have "unpack_hashEnd v (Suc hashEnd) = Inr he"
        by (subst (asm) unpack_hashEnd.simps) simp
      from "1.IH" [OF False ne this] show ?thesis by simp
    qed
  qed
qed

lemma NewGenerator_BLAKE3ZCC:
  assumes "prefix ''B3Z:'' (val d) \<or> prefix ''B3ZM:'' (val d)" and "unpack d = Inr u"
  shows "\<exists>dg0. NewGenerator d = Inr dg0 \<and> hasher_inv (dg_partialHash dg0) \<and>
           (prefix ''B3Z:'' (val d) \<longrightarrow> is_BlobHasher (dg_partialHash dg0))"
proof -
  obtain he sz se where u: "unpack d = Inr (he, sz, se)"
    using assms(2) by (cases u) auto
  then have "unpack_hashEnd (val d) 32 = Inr he"
    by (auto simp: unpack_def split: sum.splits)
  then have he: "32 \<le> he" by (auto dest: unpack_hashEnd_bounds)
  have gi: "GetInstance d = Inr (drop (se + 1) (val d))"
    using u by (simp add: GetInstance_def)
  have gh: "GetHashString d = Inr (take he (val d))"
    using u by (simp add: GetHashString_def)
  from assms(1) show ?thesis
  proof
    assume p: "prefix ''B3Z:'' (val d)"
    then have "prefix ''B3Z:'' (take he (val d))"
      using he by (intro prefix_take) simp_all
    then have "NewHasher d = Inr (newBLAKE3ZCCBlobHasher (length (drop 4 (take he (val d))) div 2))"
      using gh by (simp add: NewHasher_def)
    with gi show ?thesis
      by (simp add: NewGenerator_def newBLAKE3ZCCBlobHasher_def cp_inv_New)
  next
    assume p: "prefix ''B3ZM:'' (val d)"
    then have a: "prefix ''B3ZM:'' (take he (val d))"
      using he by (intro prefix_take) simp_all
    then have b: "\<not> prefix ''B3Z:'' (take he (val d))"
      by (auto simp: prefix_def)
    from p have c: "\<not> prefix ''B3Z:'' (val d)"
      by (auto simp: prefix_def)
    have "NewHasher d =
        Inr (ManifestHasher (newBLAKE3ZCCManifestHasher (length (drop 5 (take he (val d))) div 2)))"
      using gh a b by (simp add: NewHasher_def)
    with gi c show ?thesis
      by (simp add: NewGenerator_def mh_inv_new)
  qed
qed

text \<open>
  C10. For a digest with the prefix \<open>B3Z:\<close> or \<open>B3ZM:\<close> (whose key unpacks),
  \<open>NewGenerator\<close> returns a generator and every sequence of \<open>Write\<close> calls on it
  returns. For a \<open>B3Z:\<close> digest \<open>Sum\<close> always returns. Whenever \<open>Sum\<close> returns
  a digest, its key starts with a bare lower-case hexadecimal hash followed by a dash:
  it does not start with \<open>B3Z\<close>, unlike the digest the generator came from, and
  \<open>ToManifest\<close> returns \<open>ok = false\<close> on it for every block size.
\<close>

theorem Generator_Sum_loses_BLAKE3ZCC_prefix:
  assumes "prefix ''B3Z:'' (val d) \<or> prefix ''B3ZM:'' (val d)" and "unpack d = Inr u"
  shows "\<exists>dg0. NewGenerator d = Inr dg0 \<and>
           (\<forall>ps. \<exists>dg. Generator_Writes dg0 ps = Inr dg \<and>
              (prefix ''B3Z:'' (val d) \<longrightarrow> (\<exists>r. Generator_Sum std dg = Inr r)) \<and>
              (\<forall>r. Generator_Sum std dg = Inr r \<longrightarrow>
                 (\<exists>hs rest. val r = hs @ CHR ''-'' # rest \<and> list_all is_lower_hex hs) \<and>
                 \<not> prefix ''B3Z'' (val r) \<and> (\<forall>B. ToManifest r B = Inr None)))"
proof -
  from NewGenerator_BLAKE3ZCC [OF assms] obtain dg0 where
    n: "NewGenerator d = Inr dg0" and i: "hasher_inv (dg_partialHash dg0)"
    and b: "prefix ''B3Z:'' (val d) \<longrightarrow> is_BlobHasher (dg_partialHash dg0)"
    by blast
  have "\<exists>dg. Generator_Writes dg0 ps = Inr dg \<and>
              (prefix ''B3Z:'' (val d) \<longrightarrow> (\<exists>r. Generator_Sum std dg = Inr r)) \<and>
              (\<forall>r. Generator_Sum std dg = Inr r \<longrightarrow>
                 (\<exists>hs rest. val r = hs @ CHR ''-'' # rest \<and> list_all is_lower_hex hs) \<and>
                 \<not> prefix ''B3Z'' (val r) \<and> (\<forall>B. ToManifest r B = Inr None))" for ps
  proof -
    from Generator_Writes_ok [OF i, of ps] obtain dg where
      w: "Generator_Writes dg0 ps = Inr dg"
      and k: "is_BlobHasher (dg_partialHash dg) = is_BlobHasher (dg_partialHash dg0)"
      by blast
    have "prefix ''B3Z:'' (val d) \<longrightarrow> (\<exists>r. Generator_Sum std dg = Inr r)"
      using b k Generator_Sum_BlobHasher [of dg std] by simp
    with w Generator_Sum_shape [of std dg] show ?thesis by blast
  qed
  with n show ?thesis by blast
qed

theorem Generator_Sum_loses_BLAKE3ZCC_prefix_witness:
  "prefix ''B3Z:'' (val (Digest ''B3Z:73c932bec255516b229488d6af3d29fc-16385-instance'')) \<and>
   unpack (Digest ''B3Z:73c932bec255516b229488d6af3d29fc-16385-instance'') = Inr (36, 16385, 42) \<and>
   (\<exists>dg0 dg r.
      NewGenerator (Digest ''B3Z:73c932bec255516b229488d6af3d29fc-16385-instance'') = Inr dg0 \<and>
      Generator_Writes dg0 [[1, 2, 3]] = Inr dg \<and>
      Generator_Sum (\<lambda>k dat. []) dg = Inr r \<and>
      \<not> prefix ''B3Z'' (val r) \<and> ToManifest r 8192 = Inr None)"
proof -
  let ?d = "Digest ''B3Z:73c932bec255516b229488d6af3d29fc-16385-instance''"
  have p: "prefix ''B3Z:'' (val ?d)" by simp
  have u: "unpack ?d = Inr (36, 16385, 42)" by code_simp
  from Generator_Sum_loses_BLAKE3ZCC_prefix [OF disjI1 [OF p] u, of "\<lambda>k dat. []"]
  obtain dg0 where n: "NewGenerator ?d = Inr dg0"
    and a: "\<forall>ps. \<exists>dg. Generator_Writes dg0 ps = Inr dg \<and>
              (prefix ''B3Z:'' (val ?d) \<longrightarrow> (\<exists>r. Generator_Sum (\<lambda>k dat. []) dg = Inr r)) \<and>
              (\<forall>r. Generator_Sum (\<lambda>k dat. []) dg = Inr r \<longrightarrow>
                 (\<exists>hs rest. val r = hs @ CHR ''-'' # rest \<and> list_all is_lower_hex hs) \<and>
                 \<not> prefix ''B3Z'' (val r) \<and> (\<forall>B. ToManifest r B = Inr None))"
    by blast
  from a obtain dg where w: "Generator_Writes dg0 [[1, 2, 3]] = Inr dg"
    and s: "prefix ''B3Z:'' (val ?d) \<longrightarrow> (\<exists>r. Generator_Sum (\<lambda>k dat. []) dg = Inr r)"
    and t: "\<forall>r. Generator_Sum (\<lambda>k dat. []) dg = Inr r \<longrightarrow>
                 (\<exists>hs rest. val r = hs @ CHR ''-'' # rest \<and> list_all is_lower_hex hs) \<and>
                 \<not> prefix ''B3Z'' (val r) \<and> (\<forall>B. ToManifest r B = Inr None)"
    by blast
  from s p obtain r where r: "Generator_Sum (\<lambda>k dat. []) dg = Inr r" by blast
  with t have "\<not> prefix ''B3Z'' (val r)" "ToManifest r 8192 = Inr None" by blast+
  with n w r have "\<exists>dg0 dg r.
      NewGenerator ?d = Inr dg0 \<and> Generator_Writes dg0 [[1, 2, 3]] = Inr dg \<and>
      Generator_Sum (\<lambda>k dat. []) dg = Inr r \<and>
      \<not> prefix ''B3Z'' (val r) \<and> ToManifest r 8192 = Inr None"
    by blast
  with p u show ?thesis by blast
qed

section \<open>Random access to the concatenating buffer\<close>

lemma int64_add_left: "int64 (int64 a + b) = int64 (a + b)"
proof -
  have "int64 (int64 a + b) = int64 (int64 (int64 a) + int64 b)"
    unfolding int64_def by (simp only: signed_take_bit_add)
  also have "\<dots> = int64 (int64 a + int64 b)"
    by (simp add: int64_def)
  also have "\<dots> = int64 (a + b)"
    unfolding int64_def by (rule signed_take_bit_add)
  finally show ?thesis .
qed

lemma ReadAt_loop_count_aux:
  assumes "casConcatenatingBuffer_ReadAt_loop b plen off nTotal copied = Some r"
  shows "nTotal = int64 (int (length copied)) \<longrightarrow>
         (case r of Inl e \<Rightarrow> True | Inr (n, out, err) \<Rightarrow> n = int64 (int (length out)))"
proof (rule casConcatenatingBuffer_ReadAt_loop.raw_induct
    [where P = "\<lambda>b plen off nTotal copied r. nTotal = int64 (int (length copied)) \<longrightarrow>
         (case r of Inl e \<Rightarrow> True | Inr (n, out, err) \<Rightarrow> n = int64 (int (length out)))",
     OF _ assms])
  fix loop b plen off nTotal copied r
  assume IH: "\<And>b plen off nTotal copied r.
      loop b plen off nTotal copied = Some r \<Longrightarrow>
      nTotal = int64 (int (length copied)) \<longrightarrow>
      (case r of Inl e \<Rightarrow> True | Inr (n, out, err) \<Rightarrow> n = int64 (int (length out)))"
    and eq: "(case GetSizeBytes (ccb_digest b) of
        Inl e \<Rightarrow> Some (Inl e)
      | Inr sizeBytes \<Rightarrow>
          if off \<ge> sizeBytes then Some (Inr (nTotal, copied, Some EOF))
          else if plen = 0 then Some (Inr (nTotal, copied, None))
          else
            (case ccb_fetcher b off of
               Inl e \<Rightarrow> Some (Inl e)
             | Inr (smallBuffer, smallBufferOffset) \<Rightarrow>
                 (case buf_ReadAt smallBuffer plen (int64 (off - smallBufferOffset)) of
                    (chunk, err) \<Rightarrow>
                      if err \<noteq> None \<and> err \<noteq> Some EOF
                      then Some (Inr (int64 (nTotal + int (length chunk)), copied @ chunk, err))
                      else if plen < length chunk
                      then Some (Inl (Panic ''slice bounds out of range''))
                      else loop b (plen - length chunk)
                             (int64 (off + int (length chunk)))
                             (int64 (nTotal + int (length chunk))) (copied @ chunk)))) = Some r"
  show "nTotal = int64 (int (length copied)) \<longrightarrow>
      (case r of Inl e \<Rightarrow> True | Inr (n, out, err) \<Rightarrow> n = int64 (int (length out)))"
  proof
    assume n: "nTotal = int64 (int (length copied))"
    have step: "int64 (nTotal + int (length chunk)) = int64 (int (length (copied @ chunk)))"
      for chunk :: "byte list"
      unfolding n by (simp add: int64_add_left)
    show "case r of Inl e \<Rightarrow> True | Inr (n, out, err) \<Rightarrow> n = int64 (int (length out))"
    proof (cases "GetSizeBytes (ccb_digest b)")
      case (Inl e)
      with eq show ?thesis by auto
    next
      case (Inr sizeBytes)
      show ?thesis
      proof (cases "off \<ge> sizeBytes \<or> plen = 0")
        case True
        with eq Inr n show ?thesis by (auto split: if_splits)
      next
        case False
        show ?thesis
        proof (cases "ccb_fetcher b off")
          case (Inl e)
          with eq Inr False show ?thesis by auto
        next
          case fr: (Inr sb)
          obtain smallBuffer smallBufferOffset where sb: "sb = (smallBuffer, smallBufferOffset)"
            by (cases sb)
          obtain chunk err where
            rd: "buf_ReadAt smallBuffer plen (int64 (off - smallBufferOffset)) = (chunk, err)"
            by (cases "buf_ReadAt smallBuffer plen (int64 (off - smallBufferOffset))")
          show ?thesis
          proof (cases "err \<noteq> None \<and> err \<noteq> Some EOF")
            case True
            with eq Inr False fr sb rd step [of chunk] show ?thesis by auto
          next
            case ok: False
            show ?thesis
            proof (cases "plen < length chunk")
              case True
              with eq Inr False fr sb rd ok show ?thesis by auto
            next
              case fits: False
              with eq Inr False fr sb rd ok
              have "loop b (plen - length chunk) (int64 (off + int (length chunk)))
                      (int64 (nTotal + int (length chunk))) (copied @ chunk) = Some r"
                by auto
              from IH [OF this] step [of chunk] show ?thesis by simp
            qed
          qed
        qed
      qed
    qed
  qed
qed


lemma is_int64_int64: "is_int64 (int64 x)"
  unfolding is_int64_def int64_def
  using signed_take_bit_int_greater_eq_minus_exp [of 63 x] signed_take_bit_int_less_exp [of 63 x]
  by simp

text \<open>
  The contract of a \<open>SmallBufferFetcher\<close> for the data \<open>dat\<close>: at every offset inside
  the data the fetcher returns a buffer and its start, and reading that buffer at the
  offset yields at least one byte and at most the room given, the bytes being those of
  \<open>dat\<close> at the offset, with no error other than \<open>io.EOF\<close>.
\<close>

definition covers :: "SmallBufferFetcher \<Rightarrow> byte list \<Rightarrow> bool" where
  "covers fetcher dat =
     (\<forall>off plen. 0 \<le> off \<and> off < int (length dat) \<and> 0 < plen \<longrightarrow>
        (\<exists>sb start chunk err. fetcher off = Inr (sb, start) \<and>
           buf_ReadAt sb plen (int64 (off - start)) = (chunk, err) \<and>
           chunk \<noteq> [] \<and> length chunk \<le> plen \<and> prefix chunk (drop (nat off) dat) \<and>
           (err = None \<or> err = Some EOF)))"

lemma ReadAt_loop_covering:
  assumes c: "covers (ccb_fetcher b) dat"
    and sz: "GetSizeBytes (ccb_digest b) = Inr (int (length dat))"
    and bound: "int (length dat) < 2 ^ 63"
  shows "0 \<le> off \<Longrightarrow> off \<le> int (length dat) \<Longrightarrow> is_int64 nT \<Longrightarrow>
     casConcatenatingBuffer_ReadAt_loop b plen off nT cp =
       Some (Inr (int64 (nT + int (length (take plen (drop (nat off) dat)))),
                  cp @ take plen (drop (nat off) dat),
                  if int (length dat) \<le> off + int plen then Some EOF else None))"
proof (induction "nat (int (length dat) - off)" arbitrary: plen off nT cp rule: less_induct)
  case less
  show ?case
  proof (cases "int (length dat) \<le> off")
    case True
    with less.prems have "off = int (length dat)" by simp
    then show ?thesis
      using sz less.prems(3)
      by (subst casConcatenatingBuffer_ReadAt_loop.simps) (simp add: int64_id)
  next
    case inside: False
    show ?thesis
    proof (cases "plen = 0")
      case True
      with inside sz less.prems(3) show ?thesis
        by (subst casConcatenatingBuffer_ReadAt_loop.simps) (simp add: int64_id)
    next
      case False
      with c less.prems inside obtain sb start chunk err where
        f: "ccb_fetcher b off = Inr (sb, start)"
        and rd: "buf_ReadAt sb plen (int64 (off - start)) = (chunk, err)"
        and ne: "chunk \<noteq> []" and fit: "length chunk \<le> plen"
        and pre: "prefix chunk (drop (nat off) dat)"
        and er: "err = None \<or> err = Some EOF"
        unfolding covers_def by (metis not_le neq0_conv)
      from pre obtain rest where rest: "drop (nat off) dat = chunk @ rest"
        by (auto simp: prefix_def)
      then have "length chunk + length rest = length dat - nat off"
        by (metis length_append length_drop)
      then have cl: "int (length chunk) \<le> int (length dat) - off"
        using less.prems by simp
      define off' where "off' = off + int (length chunk)"
      have off': "0 \<le> off'" "off' \<le> int (length dat)"
        using cl less.prems by (simp_all add: off'_def)
      have wrap: "int64 (off + int (length chunk)) = off'"
        using off' bound by (simp add: off'_def int64_id is_int64_def)
      have dec: "nat (int (length dat) - off') < nat (int (length dat) - off)"
        using ne inside by (simp add: off'_def)
      have "rest = drop (length chunk) (drop (nat off) dat)"
        using rest by simp
      then have rest': "rest = drop (nat off') dat"
        using less.prems by (simp add: off'_def nat_add_distrib add.commute)
      have tk: "take plen (drop (nat off) dat) = chunk @ take (plen - length chunk) rest"
        using rest fit by simp
      have IH: "casConcatenatingBuffer_ReadAt_loop b (plen - length chunk) off'
            (int64 (nT + int (length chunk))) (cp @ chunk) =
          Some (Inr (int64 (int64 (nT + int (length chunk)) +
                       int (length (take (plen - length chunk) (drop (nat off') dat)))),
                     (cp @ chunk) @ take (plen - length chunk) (drop (nat off') dat),
                     if int (length dat) \<le> off' + int (plen - length chunk)
                     then Some EOF else None))"
        by (rule less.hyps [OF dec off' is_int64_int64])
      have cond: "(int (length dat) \<le> off' + int (plen - length chunk)) =
                  (int (length dat) \<le> off + int plen)"
        using fit by (simp add: off'_def)
      have cnt: "int64 (int64 (nT + int (length chunk)) +
                   int (length (take (plen - length chunk) rest))) =
                 int64 (nT + int (length (chunk @ take (plen - length chunk) rest)))"
        by (simp add: int64_add_left add.assoc)
      have "casConcatenatingBuffer_ReadAt_loop b plen off nT cp =
            casConcatenatingBuffer_ReadAt_loop b (plen - length chunk) off'
              (int64 (nT + int (length chunk))) (cp @ chunk)"
        using sz inside False f rd er fit wrap
        by (subst casConcatenatingBuffer_ReadAt_loop.simps) auto
      then show ?thesis
        unfolding IH tk rest' [symmetric] cond cnt by simp
    qed
  qed
qed


text \<open>
  C8. \<open>ReadAt\<close> of the concatenating buffer: a negative offset fails with
  \<open>InvalidArgument\<close> and no byte copied; an offset at or beyond the declared size yields
  \<open>io.EOF\<close> and no byte copied; the count returned is always the number of bytes copied;
  and with a fetcher that honours its contract, a read inside the data that reaches its
  end returns, with \<open>io.EOF\<close>, all the bytes from the offset to the end.
\<close>

theorem casConcatenatingBuffer_ReadAt_contract:
  "(off < 0 \<longrightarrow>
      (\<exists>msg. casConcatenatingBuffer_ReadAt b plen off =
         Some (Inr (0, [], Some (Status InvalidArgument msg))))) \<and>
   (0 \<le> off \<and> GetSizeBytes (ccb_digest b) = Inr sizeBytes \<and> sizeBytes \<le> off \<longrightarrow>
      casConcatenatingBuffer_ReadAt b plen off = Some (Inr (0, [], Some EOF))) \<and>
   (\<forall>n out err. casConcatenatingBuffer_ReadAt b plen off = Some (Inr (n, out, err)) \<longrightarrow>
      n = int64 (int (length out))) \<and>
   (covers (ccb_fetcher b) dat \<and> GetSizeBytes (ccb_digest b) = Inr (int (length dat)) \<and>
    int (length dat) < 2 ^ 63 \<and> 0 \<le> off \<and> off < int (length dat) \<and>
    int (length dat) \<le> off + int plen \<longrightarrow>
      casConcatenatingBuffer_ReadAt b plen off =
        Some (Inr (int (length dat) - off, drop (nat off) dat, Some EOF)))"
proof (intro conjI impI allI)
  assume "off < 0"
  then show "\<exists>msg. casConcatenatingBuffer_ReadAt b plen off =
         Some (Inr (0, [], Some (Status InvalidArgument msg)))"
    by (simp add: casConcatenatingBuffer_ReadAt_def)
next
  assume "0 \<le> off \<and> GetSizeBytes (ccb_digest b) = Inr sizeBytes \<and> sizeBytes \<le> off"
  then show "casConcatenatingBuffer_ReadAt b plen off = Some (Inr (0, [], Some EOF))"
    unfolding casConcatenatingBuffer_ReadAt_def
    by (subst casConcatenatingBuffer_ReadAt_loop.simps) simp
next
  fix n out err
  assume a: "casConcatenatingBuffer_ReadAt b plen off = Some (Inr (n, out, err))"
  show "n = int64 (int (length out))"
  proof (cases "off < 0")
    case True
    with a show ?thesis by (simp add: casConcatenatingBuffer_ReadAt_def int64_def)
  next
    case False
    with a have "casConcatenatingBuffer_ReadAt_loop b plen off 0 [] = Some (Inr (n, out, err))"
      by (simp add: casConcatenatingBuffer_ReadAt_def)
    from ReadAt_loop_count_aux [OF this] show ?thesis by (simp add: int64_def)
  qed
next
  assume a: "covers (ccb_fetcher b) dat \<and> GetSizeBytes (ccb_digest b) = Inr (int (length dat)) \<and>
    int (length dat) < 2 ^ 63 \<and> 0 \<le> off \<and> off < int (length dat) \<and>
    int (length dat) \<le> off + int plen"
  then have c: "covers (ccb_fetcher b) dat" and sz: "GetSizeBytes (ccb_digest b) = Inr (int (length dat))"
    and bound: "int (length dat) < 2 ^ 63" and o: "0 \<le> off" "off \<le> int (length dat)"
    and hit: "int (length dat) \<le> off + int plen"
    by simp_all
  have z: "is_int64 0" by (simp add: is_int64_def)
  have all: "take plen (drop (nat off) dat) = drop (nat off) dat"
    using hit o by simp
  have len: "int (length (drop (nat off) dat)) = int (length dat) - off"
    using o by simp
  have "is_int64 (int (length dat) - off)"
    using bound o by (simp add: is_int64_def)
  then have w: "int64 (int (length dat) - off) = int (length dat) - off"
    by (rule int64_id)
  from a have "\<not> off < 0" by simp
  then show "casConcatenatingBuffer_ReadAt b plen off =
        Some (Inr (int (length dat) - off, drop (nat off) dat, Some EOF))"
    unfolding casConcatenatingBuffer_ReadAt_def
    using ReadAt_loop_covering [OF c sz bound o z, of plen "[]"] hit
    by (simp only: all len w if_True if_False append_Nil add_0)
qed

text \<open>
  The scenario of the tests: \<open>Hello\<close> served as the fragments \<open>He\<close>, \<open>l\<close> and
  \<open>lo\<close> at the offsets 0, 2 and 3.
\<close>

definition helloDigest :: Digest where
  "helloDigest = Digest ''8b1a9953c4611296a827abf8c47804d7-5-foo''"

definition helloFetcher :: SmallBufferFetcher where
  "helloFetcher off =
     (if off < 2 then Inr (NewValidatedBufferFromByteSlice [72, 101], 0)
      else if off < 3 then Inr (NewValidatedBufferFromByteSlice [108], 2)
      else Inr (NewValidatedBufferFromByteSlice [108, 111], 3))"

lemma helloFetcher_covers: "covers helloFetcher [72, 101, 108, 108, 111]"
  unfolding covers_def
proof (intro allI impI)
  fix off :: int and plen :: nat
  assume a: "0 \<le> off \<and> off < int (length [72, 101, 108, 108, 111 :: byte]) \<and> 0 < plen"
  then obtain k where k: "plen = Suc k" by (cases plen) auto
  from a have "off = 0 \<or> off = 1 \<or> off = 2 \<or> off = 3 \<or> off = 4" by auto
  then show "\<exists>sb start chunk err. helloFetcher off = Inr (sb, start) \<and>
           buf_ReadAt sb plen (int64 (off - start)) = (chunk, err) \<and>
           chunk \<noteq> [] \<and> length chunk \<le> plen \<and>
           prefix chunk (drop (nat off) [72, 101, 108, 108, 111]) \<and>
           (err = None \<or> err = Some EOF)"
    by (elim disjE)
       (cases k; simp add: helloFetcher_def NewValidatedBufferFromByteSlice_def k int64_def)+
qed


theorem casConcatenatingBuffer_ReadAt_contract_witness:
  "(\<exists>msg. casConcatenatingBuffer_ReadAt (NewCASConcatenatingBuffer helloDigest helloFetcher) 5 (- 123) =
      Some (Inr (0, [], Some (Status InvalidArgument msg)))) \<and>
   casConcatenatingBuffer_ReadAt (NewCASConcatenatingBuffer helloDigest helloFetcher) 5 6 =
      Some (Inr (0, [], Some EOF)) \<and>
   casConcatenatingBuffer_ReadAt (NewCASConcatenatingBuffer helloDigest helloFetcher) 5 2 =
      Some (Inr (3, [108, 108, 111], Some EOF))"
proof -
  let ?b = "NewCASConcatenatingBuffer helloDigest helloFetcher"
  have sz: "GetSizeBytes (ccb_digest ?b) = Inr 5"
    unfolding NewCASConcatenatingBuffer_def helloDigest_def by code_simp
  have cv: "covers (ccb_fetcher ?b) [72, 101, 108, 108, 111]"
    using helloFetcher_covers by (simp add: NewCASConcatenatingBuffer_def)
  have neg: "\<exists>msg. casConcatenatingBuffer_ReadAt ?b 5 (- 123) =
      Some (Inr (0, [], Some (Status InvalidArgument msg)))"
    using casConcatenatingBuffer_ReadAt_contract [of "- 123" ?b 5 5 "[]"] by simp
  have beyond: "casConcatenatingBuffer_ReadAt ?b 5 6 = Some (Inr (0, [], Some EOF))"
    using casConcatenatingBuffer_ReadAt_contract [of 6 ?b 5 5 "[]"] sz by simp
  have short: "casConcatenatingBuffer_ReadAt ?b 5 2 = Some (Inr (3, [108, 108, 111], Some EOF))"
    using casConcatenatingBuffer_ReadAt_contract [of 2 ?b 5 5 "[72, 101, 108, 108, 111]"] sz cv
    by simp
  from neg beyond short show ?thesis by (intro conjI)
qed

section \<open>Put: the limit on the size of the manifest\<close>

text \<open>
  The manifest digest of a digest built by the constructor, and the sizes the two
  digests declare, as long as the size of the manifest stays within \<open>int64\<close>.
\<close>

lemma ToManifest_constructed_manifest:
  assumes "28 \<le> length h" and "CHR ''-'' \<notin> set h"
    and "S < 2 ^ 63" and "0 < B" and "B < S"
    and "((S + B - 1) div B) * 64 + 33 < 2 ^ 63"
    and "M = ((S + B - 1) div B) * 64 + (if 0 < S mod B \<and> S mod B \<le> 1024 then 33 else 0)"
  shows "ToManifest (Digest (''B3Z:'' @ h @ ''-'' @ fmt_d S @ ''-'' @ inst)) B =
           Inr (Some (Digest (''B3ZM:'' @ h @ ''-'' @ fmt_d M @ ''-'' @ inst),
                      newBLAKE3ZCCManifestParser inst S B (length h div 2)))"
    and "GetSizeBytes (Digest (''B3ZM:'' @ h @ ''-'' @ fmt_d M @ ''-'' @ inst)) = Inr M"
    and "GetSizeBytes (Digest (''B3Z:'' @ h @ ''-'' @ fmt_d S @ ''-'' @ inst)) = Inr S"
proof -
  let ?c = "(S + B - 1) div B"
  have c0: "0 \<le> ?c"
    using assms(4,5) by (simp add: pos_imp_zdiv_nonneg_iff)
  then have m64: "int64 (?c * 64) = ?c * 64"
    using assms(6) by (intro int64_id) (simp add: is_int64_def)
  have m97: "int64 (?c * 64 + 33) = ?c * 64 + 33"
    using c0 assms(6) by (intro int64_id) (simp add: is_int64_def)
  show "ToManifest (Digest (''B3Z:'' @ h @ ''-'' @ fmt_d S @ ''-'' @ inst)) B =
           Inr (Some (Digest (''B3ZM:'' @ h @ ''-'' @ fmt_d M @ ''-'' @ inst),
                      newBLAKE3ZCCManifestParser inst S B (length h div 2)))"
    using ToManifest_B3Z_constructed [OF assms(1,2,3,4,5), of inst]
    by (simp add: Let_def m64 m97 assms(7))
  have "GetSizeBytes (Digest ((''B3ZM:'' @ h) @ ''-'' @ fmt_d M @ ''-'' @ inst)) = Inr M"
  proof (rule GetSizeBytes_constructed)
    show "32 \<le> length (''B3ZM:'' @ h)" using assms(1) by simp
    show "CHR ''-'' \<notin> set (drop 32 (''B3ZM:'' @ h))" using assms(2) by (auto dest: in_set_dropD)
    show "0 \<le> M" using c0 by (simp add: assms(7))
    show "M < 2 ^ 63" using assms(6) by (simp add: assms(7))
  qed
  then show "GetSizeBytes (Digest (''B3ZM:'' @ h @ ''-'' @ fmt_d M @ ''-'' @ inst)) = Inr M"
    by simp
  have "GetSizeBytes (Digest ((''B3Z:'' @ h) @ ''-'' @ fmt_d S @ ''-'' @ inst)) = Inr S"
  proof (rule GetSizeBytes_constructed)
    show "32 \<le> length (''B3Z:'' @ h)" using assms(1) by simp
    show "CHR ''-'' \<notin> set (drop 32 (''B3Z:'' @ h))" using assms(2) by (auto dest: in_set_dropD)
    show "0 \<le> S" using assms(4,5) by simp
    show "S < 2 ^ 63" by (rule assms(3))
  qed
  then show "GetSizeBytes (Digest (''B3Z:'' @ h @ ''-'' @ fmt_d S @ ''-'' @ inst)) = Inr S"
    by simp
qed




section \<open>FindMissing: manifests that fail to load\<close>

lemma set_fold_insert: "set (fold List.insert ys xs) = set ys \<union> set xs"
  by (induction ys arbitrary: xs) auto

lemma set_fold_insert_blobs:
  "set (fold (\<lambda>b missing. List.insert (btc_blobDigest b) missing) bs xs) =
     btc_blobDigest ` set bs \<union> set xs"
  by (induction bs arbitrary: xs) auto

lemma fold_fold_insert_mono:
  "set xs \<subseteq> set (fold (\<lambda>k missing. fold List.insert (blobs k) missing) ks xs)"
proof (induction ks arbitrary: xs)
  case Nil
  show ?case by simp
next
  case (Cons k ks)
  have "set xs \<subseteq> set (fold List.insert (blobs k) xs)"
    by (simp add: set_fold_insert)
  also have "\<dots> \<subseteq> set (fold (\<lambda>k missing. fold List.insert (blobs k) missing) ks
                       (fold List.insert (blobs k) xs))"
    by (rule Cons.IH)
  finally show ?case by simp
qed

text \<open>The queue only ever adds to the composed digests it counts missing.\<close>

lemma queue_finalize_mono:
  assumes "queue_finalize base s q = Inr q'"
  shows "set (q_missingComposed q) \<subseteq> set (q_missingComposed q')"
proof -
  from assms obtain missingBlocks where
    q': "q' = q\<lparr> q_missingComposed :=
                 fold (\<lambda>blockDigest missing.
                         fold List.insert (pending_lookup (q_pending q) blockDigest) missing)
                   missingBlocks (q_missingComposed q) \<rparr>"
    by (auto simp: queue_finalize_def split: sum.splits)
  show ?thesis
    unfolding q' using fold_fold_insert_mono [of "q_missingComposed q"
        "pending_lookup (q_pending q)" missingBlocks]
    by simp
qed

lemma queue_add_mono:
  assumes "queue_add base s q blockDigest blobDigest = Inr q'"
  shows "set (q_missingComposed q) \<subseteq> set (q_missingComposed q')"
proof (cases "q_batchSize q \<le> length (q_pending q)")
  case True
  with assms obtain q1 where f: "queue_finalize base s q = Inr q1"
    and q': "q' = q1\<lparr> q_pending := pending_add [] blockDigest blobDigest \<rparr>"
    by (auto simp: queue_add_def split: sum.splits)
  from queue_finalize_mono [OF f] q' show ?thesis by simp
next
  case False
  with assms show ?thesis by (auto simp: queue_add_def)
qed

lemma FindMissing_blocks_mono:
  assumes "FindMissing_blocks base s manifest b sizeBytes currentOffset q = Some r"
  shows "\<forall>q'. r = Inr q' \<longrightarrow> set (q_missingComposed q) \<subseteq> set (q_missingComposed q')"
proof (rule FindMissing_blocks.raw_induct
    [where P = "\<lambda>base s manifest b sizeBytes currentOffset q r.
       \<forall>q'. r = Inr q' \<longrightarrow> set (q_missingComposed q) \<subseteq> set (q_missingComposed q')",
     OF _ assms])
  fix F base s manifest b sizeBytes currentOffset q r
  assume IH: "\<And>base s manifest b sizeBytes currentOffset q r.
       F base s manifest b sizeBytes currentOffset q = Some r \<Longrightarrow>
       \<forall>q'. r = Inr q' \<longrightarrow> set (q_missingComposed q) \<subseteq> set (q_missingComposed q')"
    and step: "(if currentOffset < sizeBytes then
        (case GetBlockDigest (btc_manifestParser b) manifest currentOffset of
           Inl e \<Rightarrow> Some (Inl e)
         | Inr (blockDigest, blockOffset) \<Rightarrow>
             (case queue_add base s q blockDigest (btc_blobDigest b) of
                Inl e \<Rightarrow> Some (Inl e)
              | Inr q' \<Rightarrow>
                  (case GetSizeBytes blockDigest of
                     Inl e \<Rightarrow> Some (Inl e)
                   | Inr n \<Rightarrow>
                       F base s manifest b sizeBytes
                         (int64 (blockOffset + n)) q')))
      else Some (Inr q)) = Some r"
  show "\<forall>q'. r = Inr q' \<longrightarrow> set (q_missingComposed q) \<subseteq> set (q_missingComposed q')"
  proof (intro allI impI)
    fix q' assume r: "r = Inr q'"
    show "set (q_missingComposed q) \<subseteq> set (q_missingComposed q')"
    proof (cases "currentOffset < sizeBytes")
      case False
      with step r show ?thesis by simp
    next
      case True
      with step r obtain blockDigest blockOffset q1 n where
        a: "queue_add base s q blockDigest (btc_blobDigest b) = Inr q1"
        and rec: "F base s manifest b sizeBytes (int64 (blockOffset + n)) q1 = Some (Inr q')"
        by (auto split: sum.splits prod.splits)
      from queue_add_mono [OF a] IH [OF rec] show ?thesis by auto
    qed
  qed
qed

lemma FindMissing_blobs_mono:
  "FindMissing_blobs base s manifest bs q = Some (Inr q') \<Longrightarrow>
     set (q_missingComposed q) \<subseteq> set (q_missingComposed q')"
proof (induction bs arbitrary: q)
  case Nil
  then show ?case by simp
next
  case (Cons b bs)
  from Cons.prems obtain sizeBytes q1 where
    bl: "FindMissing_blocks base s manifest b sizeBytes 0 q = Some (Inr q1)"
    and rest: "FindMissing_blobs base s manifest bs q1 = Some (Inr q')"
    by (auto split: sum.splits option.splits)
  from FindMissing_blocks_mono [OF bl] Cons.IH [OF rest] show ?case by auto
qed

lemma FindMissing_summaries_mono:
  "FindMissing_summaries ba s entries q = Some (Inr q') \<Longrightarrow>
     set (q_missingComposed q) \<subseteq> set (q_missingComposed q')"
proof (induction entries arbitrary: q)
  case Nil
  then show ?case by simp
next
  case (Cons entry entries)
  obtain manifestDigest blobsToCheck where entry: "entry = (manifestDigest, blobsToCheck)"
    by (cases entry)
  show ?case
  proof (cases "buf_ToByteSlice (ba_Get (dba_base ba) s manifestDigest)
                  (dba_maximumManifestSizeBytes ba)")
    case (Inr manifest)
    with Cons.prems entry obtain q1 where
      bl: "FindMissing_blobs (dba_base ba) s manifest blobsToCheck q = Some (Inr q1)"
      and rest: "FindMissing_summaries ba s entries q1 = Some (Inr q')"
      by (auto split: sum.splits option.splits)
    from FindMissing_blobs_mono [OF bl] Cons.IH [OF rest] show ?thesis by auto
  next
    case (Inl err)
    with Cons.prems entry have
      rest: "FindMissing_summaries ba s entries
               (q\<lparr> q_missingComposed :=
                   fold (\<lambda>b missing. List.insert (btc_blobDigest b) missing) blobsToCheck
                     (q_missingComposed q) \<rparr>) = Some (Inr q')"
      by (auto split: if_splits)
    from Cons.IH [OF rest] show ?thesis
      by (auto simp: set_fold_insert_blobs)
  qed
qed

lemma FindMissing_summaries_append:
  "FindMissing_summaries ba s (pre @ rest) q =
     (case FindMissing_summaries ba s pre q of
        None \<Rightarrow> None
      | Some (Inl e) \<Rightarrow> Some (Inl e)
      | Some (Inr q') \<Rightarrow> FindMissing_summaries ba s rest q')"
proof (induction pre arbitrary: q)
  case Nil
  show ?case by simp
next
  case (Cons entry pre)
  obtain manifestDigest blobsToCheck where entry: "entry = (manifestDigest, blobsToCheck)"
    by (cases entry)
  show ?case
    unfolding entry append_Cons FindMissing_summaries.simps
    by (simp add: Cons.IH split: sum.splits option.splits)
qed

text \<open>
  C7. \<open>FindMissing\<close> has asked the backing store about the manifests
  (\<open>missingInitially\<close>) and walks over those reported present, in the order \<open>order\<close>;
  the entries \<open>pre\<close> before the manifest \<open>manifestDigest\<close> have been processed and the
  manifest fails to load with \<open>err\<close>. If the code of \<open>err\<close> is not \<open>NotFound\<close>,
  \<open>FindMissing\<close> returns \<open>err\<close> wrapped with the digest of the manifest: for every
  error value, a status or not, the result is a status with the code of \<open>err\<close> and a
  message that starts with \<open>Failed to load manifest\<close>, the digest and a colon. If it is
  \<open>NotFound\<close>, the walk goes on with the remaining entries, the blobs of the manifest
  counted missing; and when the remaining entries and the last batch of the queue
  succeed, \<open>FindMissing\<close> returns a set that contains every blob of the manifest.
\<close>

theorem FindMissing_manifest_load_failure:
  assumes part: "FindMissing_partition (int64 (dba_blockSizeBytes ba)) digests [] [] =
                   Inr (summariesToCheck, initialDigests)"
    and init: "ba_FindMissing (dba_base ba) s initialDigests = Inr missingInitially"
    and skip: "FindMissing_skip missingInitially summariesToCheck [] =
                 (summariesToCheck', missingComposed)"
    and ord: "order summariesToCheck' = pre @ (manifestDigest, blobsToCheck) # rest"
    and pre: "FindMissing_summaries ba s pre
                \<lparr> q_missingComposed = missingComposed, q_batchSize = 1000, q_pending = [] \<rparr> =
              Some (Inr q)"
    and load: "buf_ToByteSlice (ba_Get (dba_base ba) s manifestDigest)
                 (dba_maximumManifestSizeBytes ba) = Inl err"
  shows "(status_Code err \<noteq> NotFound \<longrightarrow>
            decomposing_FindMissing order ba s digests =
              Some (Inl (StatusWrap err (''Failed to load manifest '' @ val manifestDigest))) \<and>
            ((\<forall>m. err \<noteq> Panic m) \<longrightarrow>
               (\<exists>msg. decomposing_FindMissing order ba s digests =
                  Some (Inl (Status (status_Code err)
                    (''Failed to load manifest '' @ val manifestDigest @ '': '' @ msg)))))) \<and>
         (status_Code err = NotFound \<longrightarrow>
            FindMissing_summaries ba s (order summariesToCheck')
                \<lparr> q_missingComposed = missingComposed, q_batchSize = 1000, q_pending = [] \<rparr> =
              FindMissing_summaries ba s rest
                (q\<lparr> q_missingComposed :=
                     fold (\<lambda>b missing. List.insert (btc_blobDigest b) missing) blobsToCheck
                       (q_missingComposed q) \<rparr>) \<and>
            (\<forall>q' q''.
               FindMissing_summaries ba s rest
                 (q\<lparr> q_missingComposed :=
                      fold (\<lambda>b missing. List.insert (btc_blobDigest b) missing) blobsToCheck
                        (q_missingComposed q) \<rparr>) = Some (Inr q') \<and>
               queue_finalize (dba_base ba) s q' = Inr q'' \<longrightarrow>
               (\<exists>missing. decomposing_FindMissing order ba s digests = Some (Inr missing) \<and>
                  btc_blobDigest ` set blobsToCheck \<subseteq> set missing)))"
proof (intro conjI impI allI)
  let ?q0 = "\<lparr> q_missingComposed = missingComposed, q_batchSize = 1000, q_pending = [] \<rparr>"
  let ?q1 = "q\<lparr> q_missingComposed :=
               fold (\<lambda>b missing. List.insert (btc_blobDigest b) missing) blobsToCheck
                 (q_missingComposed q) \<rparr>"
  {
    assume c: "status_Code err \<noteq> NotFound"
    have "FindMissing_summaries ba s (order summariesToCheck') ?q0 =
            Some (Inl (StatusWrap err (''Failed to load manifest '' @ val manifestDigest)))"
      unfolding ord FindMissing_summaries_append pre
      using load c by simp
    then show w: "decomposing_FindMissing order ba s digests =
              Some (Inl (StatusWrap err (''Failed to load manifest '' @ val manifestDigest)))"
      using part init skip by (simp add: decomposing_FindMissing_def)
    assume np: "\<forall>m. err \<noteq> Panic m"
    then have "\<exists>msg. StatusWrap err (''Failed to load manifest '' @ val manifestDigest) =
            Status (status_Code err)
              (''Failed to load manifest '' @ val manifestDigest @ '': '' @ msg)"
      by (cases err) simp_all
    with w show "\<exists>msg. decomposing_FindMissing order ba s digests =
                  Some (Inl (Status (status_Code err)
                    (''Failed to load manifest '' @ val manifestDigest @ '': '' @ msg)))"
      by auto
  }
  {
    assume c: "status_Code err = NotFound"
    show cont: "FindMissing_summaries ba s (order summariesToCheck') ?q0 =
            FindMissing_summaries ba s rest ?q1"
      unfolding ord FindMissing_summaries_append pre
      using load c by simp
    fix q' q''
    assume a: "FindMissing_summaries ba s rest ?q1 = Some (Inr q') \<and>
               queue_finalize (dba_base ba) s q' = Inr q''"
    have "btc_blobDigest ` set blobsToCheck \<subseteq> set (q_missingComposed ?q1)"
      by (simp add: set_fold_insert_blobs)
    also have "\<dots> \<subseteq> set (q_missingComposed q')"
      by (rule FindMissing_summaries_mono) (rule conjunct1 [OF a])
    also have "\<dots> \<subseteq> set (q_missingComposed q'')"
      by (rule queue_finalize_mono) (rule conjunct2 [OF a])
    finally have sub: "btc_blobDigest ` set blobsToCheck \<subseteq> set (q_missingComposed q'')" .
    have "decomposing_FindMissing order ba s digests =
            Some (Inr (List.union (filter (\<lambda>d. d \<in> set digests) missingInitially)
                         (q_missingComposed q'')))"
      using part init skip cont a by (simp add: decomposing_FindMissing_def)
    with sub show "\<exists>missing. decomposing_FindMissing order ba s digests = Some (Inr missing) \<and>
                  btc_blobDigest ` set blobsToCheck \<subseteq> set missing"
      by auto
  }
qed


text \<open>
  A composed digest of 16385 bytes over a store that reports its manifest present and
  then fails to load it: with \<open>NotFound\<close> the digest is returned as missing, with
  \<open>Internal\<close> the error comes back wrapped, and \<open>io.EOF\<close>, which is not a status,
  comes back as a status of code \<open>Unknown\<close> with the same context.
\<close>

theorem FindMissing_manifest_load_failure_witness:
  "(\<exists>missing.
      decomposing_FindMissing (\<lambda>entries. entries)
        (NewDecomposingBlobAccess (failing_store (Status NotFound ''Object not found''))
           8192 2097152) ()
        [Digest ''B3Z:091108a2b65e2ae62b852eb3b25296ba-16385-instance''] = Some (Inr missing) \<and>
      Digest ''B3Z:091108a2b65e2ae62b852eb3b25296ba-16385-instance'' \<in> set missing) \<and>
   decomposing_FindMissing (\<lambda>entries. entries)
     (NewDecomposingBlobAccess (failing_store (Status Internal ''Disk failure'')) 8192 2097152) ()
     [Digest ''B3Z:091108a2b65e2ae62b852eb3b25296ba-16385-instance''] =
   Some (Inl (Status Internal
     ''Failed to load manifest B3ZM:091108a2b65e2ae62b852eb3b25296ba-225-instance: Disk failure'')) \<and>
   decomposing_FindMissing (\<lambda>entries. entries)
     (NewDecomposingBlobAccess (failing_store EOF) 8192 2097152) ()
     [Digest ''B3Z:091108a2b65e2ae62b852eb3b25296ba-16385-instance''] =
   Some (Inl (Status Unknown
     ''Failed to load manifest B3ZM:091108a2b65e2ae62b852eb3b25296ba-225-instance: EOF''))"
proof -
  let ?h = "''091108a2b65e2ae62b852eb3b25296ba''"
  let ?d = "Digest ''B3Z:091108a2b65e2ae62b852eb3b25296ba-16385-instance''"
  let ?md = "Digest ''B3ZM:091108a2b65e2ae62b852eb3b25296ba-225-instance''"
  let ?mp = "newBLAKE3ZCCManifestParser ''instance'' 16385 8192 (length ?h div 2)"
  let ?b = "\<lparr> btc_blobDigest = ?d, btc_manifestParser = ?mp \<rparr>"
  let ?ba = "\<lambda>err. NewDecomposingBlobAccess (failing_store err) 8192 2097152"
  let ?q0 = "\<lparr> q_missingComposed = [], q_batchSize = 1000, q_pending = [] \<rparr>"
  have f: "fmt_d 16385 = ''16385''" "fmt_d 225 = ''225''"
    by (simp_all add: fmt_d_eval)
  have e: "(let m = int64 (((16385 + 8192 - 1) div 8192) * 64)
            in if 0 < (16385::int) mod 8192 \<and> (16385::int) mod 8192 \<le> 1024
               then int64 (m + 33) else m) = 225"
    by (simp add: int64_def Let_def signed_take_bit_eq_take_bit_shift take_bit_eq_mod)
  have B: "int64 (dba_blockSizeBytes (?ba err)) = 8192" for err
    by (simp add: NewDecomposingBlobAccess_def int64_def
          signed_take_bit_eq_take_bit_shift take_bit_eq_mod)
  have "ToManifest (Digest (''B3Z:'' @ ?h @ ''-'' @ fmt_d 16385 @ ''-'' @ ''instance'')) 8192 =
      Inr (Some
       (Digest (''B3ZM:'' @ ?h @ ''-'' @
          fmt_d (let m = int64 (((16385 + 8192 - 1) div 8192) * 64)
                 in if 0 < (16385::int) mod 8192 \<and> (16385::int) mod 8192 \<le> 1024
                    then int64 (m + 33) else m) @ ''-'' @ ''instance''),
        newBLAKE3ZCCManifestParser ''instance'' 16385 8192 (length ?h div 2)))"
    by (rule ToManifest_B3Z_constructed) simp_all
  then have tm: "ToManifest ?d 8192 = Inr (Some (?md, ?mp))"
    unfolding e f by (simp only: append_Cons append_Nil)
  have part: "FindMissing_partition (int64 (dba_blockSizeBytes (?ba err))) [?d] [] [] =
      Inr ([(?md, [?b])], [?md])" for err
    unfolding B by (simp add: tm summaries_append_def)
  have init: "ba_FindMissing (dba_base (?ba err)) () [?md] = Inr []" for err
    by (simp add: NewDecomposingBlobAccess_def failing_store_def)
  have skip: "FindMissing_skip [] [(?md, [?b])] [] = ([(?md, [?b])], [])"
    by simp
  have ord: "(\<lambda>entries. entries) [(?md, [?b])] = [] @ (?md, [?b]) # []"
    by simp
  have pre: "FindMissing_summaries (?ba err) () [] ?q0 = Some (Inr ?q0)" for err
    by simp
  have load: "buf_ToByteSlice (ba_Get (dba_base (?ba err)) () ?md)
      (dba_maximumManifestSizeBytes (?ba err)) = Inl err" for err
    by (simp add: NewDecomposingBlobAccess_def failing_store_def NewBufferFromError_def)
  have fin: "queue_finalize (dba_base (?ba err)) () q = Inr q" if "q_pending q = []" for err q
    using that by (simp add: queue_finalize_def NewDecomposingBlobAccess_def failing_store_def)
  let ?nf = "Status NotFound ''Object not found''"
  let ?io = "Status Internal ''Disk failure''"
  note nf = FindMissing_manifest_load_failure
    [where order = "\<lambda>entries. entries" and pre = "[]" and rest = "[]",
     OF part [of ?nf] init [of ?nf] skip ord pre [of ?nf] load [of ?nf]]
  note other = FindMissing_manifest_load_failure
    [where order = "\<lambda>entries. entries" and pre = "[]" and rest = "[]",
     OF part [of ?io] init [of ?io] skip ord pre [of ?io] load [of ?io]]
  note eof = FindMissing_manifest_load_failure
    [where order = "\<lambda>entries. entries" and pre = "[]" and rest = "[]",
     OF part [of EOF] init [of EOF] skip ord pre [of EOF] load [of EOF]]
  have 1: "\<exists>missing.
      decomposing_FindMissing (\<lambda>entries. entries) (?ba (Status NotFound ''Object not found'')) ()
        [?d] = Some (Inr missing) \<and> ?d \<in> set missing"
    using nf fin by simp
  have 2: "decomposing_FindMissing (\<lambda>entries. entries) (?ba (Status Internal ''Disk failure'')) ()
     [?d] = Some (Inl (Status Internal
     ''Failed to load manifest B3ZM:091108a2b65e2ae62b852eb3b25296ba-225-instance: Disk failure''))"
    using other by simp
  have 3: "decomposing_FindMissing (\<lambda>entries. entries) (?ba EOF) ()
     [?d] = Some (Inl (Status Unknown
     ''Failed to load manifest B3ZM:091108a2b65e2ae62b852eb3b25296ba-225-instance: EOF''))"
    using eof by simp
  show ?thesis
    by (intro conjI) (rule 1, rule 2, rule 3)
qed

section \<open>Blocks of more than one chunk\<close>

text \<open>
  A block of more than 1024 bytes has a parent node as its root, and its entry in the
  manifest has 64 bytes.
\<close>

lemma length_compress: "length (compress h m t b d) = 16"
  by (simp add: compress_def Let_def)

lemma length_truncate_cv_compress: "length (truncate_cv (compress h m t b d)) = 8"
  by (simp add: truncate_cv_def length_compress)

definition stack_len8 :: "u32 list list \<Rightarrow> bool" where
  "stack_len8 stack = list_all (\<lambda>cv. length cv = 8) stack"

lemma AppendNode_merge_len8:
  "AppendNode_merge stack cv t = Inr (stack', cv') \<Longrightarrow> stack_len8 stack \<Longrightarrow> length cv = 8 \<Longrightarrow>
     stack_len8 stack' \<and> length cv' = 8"
proof (induction stack cv t rule: AppendNode_merge.induct)
  case (1 stack cv t)
  show ?case
  proof (cases "t AND 1 \<noteq> 0")
    case False
    with "1.prems" show ?thesis
      by (subst (asm) AppendNode_merge.simps) simp
  next
    case True
    show ?thesis
    proof (cases "stack = []")
      case e: True
      with True "1.prems"(1) show ?thesis
        by (subst (asm) AppendNode_merge.simps) simp
    next
      case ne: False
      let ?cv = "truncate_cv (compress iv (concatenate (last stack) cv) 0
                   (of_nat maximumBlockSize) flagParent)"
      have rec: "AppendNode_merge (butlast stack) ?cv (drop_bit 1 t) = Inr (stack', cv')"
        using "1.prems"(1) True ne by (subst (asm) AppendNode_merge.simps) simp
      have "stack_len8 (butlast stack)"
        using "1.prems"(2) by (auto simp: stack_len8_def list_all_iff dest: in_set_butlastD)
      moreover have "length ?cv = 8" by (rule length_truncate_cv_compress)
      ultimately show ?thesis
        using "1.IH" [OF True ne rec] by simp
    qed
  qed
qed

lemma AppendNode_len8:
  assumes "AppendNode s n = Inr s'" and "stack_len8 (cvs_stack s)"
  shows "stack_len8 (cvs_stack s') \<and> cvs_stack s' \<noteq> []"
proof -
  let ?cv = "truncate_cv (compress (n_chainingValue n) (n_m n) 0 (n_blockSize n) (n_flags n))"
  from assms(1) obtain stack cv where
    m: "AppendNode_merge (cvs_stack s) ?cv (cvs_totalNodes s) = Inr (stack, cv)"
    and s': "cvs_stack s' = stack @ [cv]"
    by (auto simp: AppendNode_def split: sum.splits)
  from AppendNode_merge_len8 [OF m assms(2) length_truncate_cv_compress]
  show ?thesis by (simp add: s' stack_len8_def)
qed

lemma GetRootNode_parent:
  assumes "cvs_stack s \<noteq> []" and "stack_len8 (cvs_stack s)"
  shows "\<exists>m. GetRootNode s n = NewParentNode m \<and> length m = 16"
proof -
  from assms(1) obtain e rest where st: "cvs_stack s = e # rest"
    by (cases "cvs_stack s") auto
  with assms(2) have e: "length e = 8" by (simp add: stack_len8_def)
  let ?n = "fold GetRootNode_step (rev rest) n"
  have "GetRootNode s n = GetRootNode_step e ?n"
    by (simp add: GetRootNode_def st)
  moreover have "length (concatenate e
       (truncate_cv (compress (n_chainingValue ?n) (n_m ?n) 0 (n_blockSize ?n) (n_flags ?n)))) = 16"
    using e by (simp add: concatenate_def length_truncate_cv_compress)
  ultimately show ?thesis
    unfolding GetRootNode_step_def by blast
qed

lemma length_concat_PutUint32: "length (concat (map PutUint32 m)) = 4 * length m"
  by (induction m) (simp_all add: PutUint32_def)

lemma marshalBLAKE3ZCCParentNode_parent:
  "length m = 16 \<Longrightarrow>
   \<exists>entry. marshalBLAKE3ZCCParentNode (NewParentNode m) = Inr entry \<and> length entry = 64"
  by (simp add: marshalBLAKE3ZCCParentNode_def GetParentData_def NewParentNode_def
        length_concat_PutUint32)

definition cp_inv2 :: "ChunkParser \<Rightarrow> bool" where
  "cp_inv2 p = (cp_inv p \<and> 1 \<le> cp_blocksRemaining p \<and> cp_blocksRemaining p \<le> 16 \<and>
                stack_len8 (cvs_stack (cp_chainingValueStack p)))"

definition cp_parent :: "ChunkParser \<Rightarrow> nat \<Rightarrow> bool" where
  "cp_parent p n = (cvs_stack (cp_chainingValueStack p) \<noteq> [] \<or>
                    1024 < 64 * (16 - cp_blocksRemaining p) + cp_blockSize p + n)"

lemma ChunkParser_Write_parent:
  "cp_inv2 p \<Longrightarrow> cp_parent p (length b) \<Longrightarrow>
   \<exists>p'. ChunkParser_Write p b = Inr p' \<and> cp_inv2 p' \<and>
        cvs_stack (cp_chainingValueStack p') \<noteq> []"
proof (induction p b rule: ChunkParser_Write.induct)
  case (1 p b)
  define n where "n = min (64 - cp_blockSize p) (length b)"
  define block where
    "block = take (cp_blockSize p) (cp_block p) @ take n b @ drop (cp_blockSize p + n) (cp_block p)"
  define p1 where "p1 = p\<lparr> cp_block := block, cp_blockSize := cp_blockSize p + n \<rparr>"
  define b1 where "b1 = drop n b"
  define m where "m = getBlock p1"
  define p2 where "p2 = p1\<lparr> cp_blockSize := 0 \<rparr>"
  from "1.prems"(1) have len: "length (cp_block p) = 64" and bs: "cp_blockSize p \<le> 64"
    and st: "stack_inv (cp_chainingValueStack p)"
    and br: "1 \<le> cp_blocksRemaining p" "cp_blocksRemaining p \<le> 16"
    and l8: "stack_len8 (cvs_stack (cp_chainingValueStack p))"
    by (simp_all add: cp_inv2_def cp_inv_def)
  have guard: "\<not> maximumBlockSize < cp_blockSize p"
    using bs by (simp add: maximumBlockSize_def)
  have ci: "copy_into maximumBlockSize (cp_block p) (cp_blockSize p) b = (block, n)"
    by (simp add: copy_into_def maximumBlockSize_def Let_def block_def n_def)
  have len1: "length block = 64"
    using len bs by (simp add: block_def n_def min_def)
  have inv1: "cp_inv2 p1"
    using len1 bs st br l8 by (simp add: cp_inv2_def cp_inv_def p1_def n_def)
  have inv2: "cp_inv2 p2"
    using len1 st br l8 by (simp add: cp_inv2_def cp_inv_def p2_def p1_def)
  have unfold: "ChunkParser_Write p b =
     (if length b1 = 0 then Inr p1
      else if cp_blocksRemaining p2 = 1 then
             (case AppendNode (cp_chainingValueStack p2)
                     (NewChunkNode (cp_chunkChainingValue p2) m
                        (of_nat maximumBlockSize) False) of
                Inl e \<Rightarrow> Inl e
              | Inr s \<Rightarrow>
                  ChunkParser_Write
                    (p2\<lparr> cp_chainingValueStack := s,
                         cp_blocksRemaining := maximumBlocksPerChunk,
                         cp_chunkChainingValue := iv,
                         cp_chunkStart := True \<rparr>) b1)
           else
             ChunkParser_Write
               (p2\<lparr> cp_blocksRemaining := cp_blocksRemaining p2 - 1,
                    cp_chunkChainingValue :=
                      truncate_cv (compress (cp_chunkChainingValue p2) m 0
                        (of_nat maximumBlockSize)
                        (if cp_chunkStart p2 then 0 OR flagChunkStart else 0)),
                    cp_chunkStart := False \<rparr>) b1)"
    using guard ci
    by (subst ChunkParser_Write.simps)
       (simp only: if_False prod.case Let_def p1_def b1_def m_def p2_def)
  show ?case
  proof (cases "length b1 = 0")
    case True
    then have "length b \<le> 64 - cp_blockSize p"
      by (simp add: b1_def n_def min_def split: if_splits)
    with br bs have "\<not> 1024 < 64 * (16 - cp_blocksRemaining p) + cp_blockSize p + length b"
      by simp
    with "1.prems"(2) have "cvs_stack (cp_chainingValueStack p) \<noteq> []"
      by (simp add: cp_parent_def)
    then have "cvs_stack (cp_chainingValueStack p1) \<noteq> []"
      by (simp add: p1_def)
    with inv1 True show ?thesis by (simp add: unfold)
  next
    case ne: False
    then have nfull: "n = 64 - cp_blockSize p" and lb1: "length b1 = length b - n"
      by (simp_all add: b1_def n_def min_def split: if_splits)
    show ?thesis
    proof (cases "cp_blocksRemaining p2 = 1")
      case True
      obtain s where ap: "AppendNode (cp_chainingValueStack p2)
                     (NewChunkNode (cp_chunkChainingValue p2) m
                        (of_nat maximumBlockSize) False) = Inr s"
        and st': "stack_inv s"
        using AppendNode_ok inv2 unfolding cp_inv2_def cp_inv_def by blast
      have s8: "stack_len8 (cvs_stack s) \<and> cvs_stack s \<noteq> []"
        using AppendNode_len8 [OF ap] inv2 by (simp add: cp_inv2_def)
      define p3 where "p3 = p2\<lparr> cp_chainingValueStack := s,
                         cp_blocksRemaining := maximumBlocksPerChunk,
                         cp_chunkChainingValue := iv,
                         cp_chunkStart := True \<rparr>"
      have inv3: "cp_inv2 p3"
        using inv2 st' s8
        by (simp add: cp_inv2_def cp_inv_def p3_def maximumBlocksPerChunk_def)
      have par3: "cp_parent p3 (length b1)"
        using s8 by (simp add: cp_parent_def p3_def)
      have "\<exists>p'. ChunkParser_Write p3 b1 = Inr p' \<and> cp_inv2 p' \<and>
              cvs_stack (cp_chainingValueStack p') \<noteq> []"
        unfolding p3_def
        by (rule "1.IH"(1) [OF guard ci [symmetric] p1_def b1_def ne m_def p2_def True ap])
           (use inv3 par3 in \<open>simp_all add: p3_def\<close>)
      moreover have "ChunkParser_Write p b = ChunkParser_Write p3 b1"
        unfolding unfold p3_def using ne True ap by simp
      ultimately show ?thesis by simp
    next
      case False
      define p3 where "p3 = p2\<lparr> cp_blocksRemaining := cp_blocksRemaining p2 - 1,
                    cp_chunkChainingValue :=
                      truncate_cv (compress (cp_chunkChainingValue p2) m 0
                        (of_nat maximumBlockSize)
                        (if cp_chunkStart p2 then 0 OR flagChunkStart else 0)),
                    cp_chunkStart := False \<rparr>"
      have br2: "2 \<le> cp_blocksRemaining p"
        using False br by (simp add: p2_def p1_def)
      have "1 \<le> cp_blocksRemaining p - 1" "cp_blocksRemaining p - 1 \<le> 16"
        using br br2 by simp_all
      then have inv3: "cp_inv2 p3"
        using inv2 by (simp add: cp_inv2_def cp_inv_def p3_def p2_def p1_def)
      have par3: "cp_parent p3 (length b1)"
      proof (cases "cvs_stack (cp_chainingValueStack p) = []")
        case False
        then show ?thesis by (simp add: cp_parent_def p3_def p2_def p1_def)
      next
        case True
        with "1.prems"(2) have
          "1024 < 64 * (16 - cp_blocksRemaining p) + cp_blockSize p + length b"
          by (simp add: cp_parent_def)
        moreover have gt: "length b > n" using ne lb1 by simp
        ultimately have "1024 < 64 * (16 - (cp_blocksRemaining p - 1)) + (length b - n)"
          using br br2 bs nfull by simp
        then show ?thesis
          using gt by (simp add: cp_parent_def p3_def p2_def p1_def lb1)
      qed
      have "\<exists>p'. ChunkParser_Write p3 b1 = Inr p' \<and> cp_inv2 p' \<and>
              cvs_stack (cp_chainingValueStack p') \<noteq> []"
        unfolding p3_def
        by (rule "1.IH"(2) [OF guard ci [symmetric] p1_def b1_def ne m_def p2_def False])
           (use inv3 par3 in \<open>simp_all add: p3_def\<close>)
      moreover have "ChunkParser_Write p b = ChunkParser_Write p3 b1"
        unfolding unfold p3_def using ne False by simp
      ultimately show ?thesis by simp
    qed
  qed
qed

lemma cp_inv2_New: "cp_inv2 NewChunkParser"
  by (simp add: cp_inv2_def cp_inv_New)
     (simp add: NewChunkParser_def maximumBlocksPerChunk_def NewChainingValueStack_def
        stack_len8_def)

lemma AppendBlockDigest_large:
  assumes "1024 < length block"
  shows "\<exists>entry blockDigest.
           AppendBlockDigest mp manifest block = Inr (manifest @ entry, blockDigest) \<and>
           length entry = 64"
proof -
  have "cp_parent NewChunkParser (length block)"
    using assms by (simp add: cp_parent_def NewChunkParser_def maximumBlocksPerChunk_def)
  from ChunkParser_Write_parent [OF cp_inv2_New this] obtain c where
    w: "ChunkParser_Write NewChunkParser block = Inr c"
    and inv: "cp_inv2 c" and ne: "cvs_stack (cp_chainingValueStack c) \<noteq> []"
    by blast
  from inv have l8: "stack_len8 (cvs_stack (cp_chainingValueStack c))"
    by (simp add: cp_inv2_def)
  obtain m where r: "ChunkParser_GetRootNode c = NewParentNode m" and m: "length m = 16"
    using GetRootNode_parent [OF ne l8] unfolding ChunkParser_GetRootNode_def Let_def by blast
  from marshalBLAKE3ZCCParentNode_parent [OF m] obtain entry where
    e: "marshalBLAKE3ZCCParentNode (NewParentNode m) = Inr entry" and le: "length entry = 64"
    by blast
  have "AppendBlockDigest mp manifest block =
          Inr (manifest @ entry, convertNodeToDigest mp (NewParentNode m) (int (length block)))"
    using assms w r e by (simp add: AppendBlockDigest_def Let_def)
  with le show ?thesis by blast
qed

section \<open>Put followed by Get\<close>

text \<open>
  A blob of whole blocks is cut into blocks of the block size; over the store held in
  memory every block is stored and adds 64 bytes to the manifest.
\<close>

lemma chop_whole:
  "0 < B \<Longrightarrow> length xs = k * B \<Longrightarrow>
     length (chop B xs) = k \<and> list_all (\<lambda>c. length c = B) (chop B xs)"
proof (induction k arbitrary: xs)
  case 0
  then show ?case by (subst (1 2) chop.simps) simp
next
  case (Suc k)
  from Suc.prems have ne: "xs \<noteq> []" by auto
  have l: "length (drop B xs) = k * B" using Suc.prems by simp
  have c: "chop B xs = take B xs # chop B (drop B xs)"
    using Suc.prems(1) ne by (subst chop.simps) simp
  have "length (take B xs) = B" using Suc.prems by simp
  with Suc.IH [OF Suc.prems(1) l] show ?case
    unfolding c by simp
qed

lemma memory_store_Put:
  "int (length dat) < 2 ^ 63 \<Longrightarrow>
   ba_Put memory_store s d (NewValidatedBufferFromByteSlice dat) = (None, s(d \<mapsto> dat))"
  by (simp add: memory_store_def NewValidatedBufferFromByteSlice_def)

lemma Put_loop_memory_store:
  assumes "list_all (\<lambda>c. 1024 < length c \<and> int (length c) < 2 ^ 63) cs"
  shows "\<exists>manifest' s' calls'.
           Put_loop memory_store mp (ChunkReader cs EOF) manifest offset s calls =
             (Inr manifest', s', calls') \<and>
           length manifest' = length manifest + 64 * length cs"
  using assms
proof (induction cs arbitrary: manifest offset s calls)
  case Nil
  show ?case by (subst Put_loop.simps) simp
next
  case (Cons c cs)
  from Cons.prems have c: "1024 < length c" "int (length c) < 2 ^ 63"
    and cs: "list_all (\<lambda>c. 1024 < length c \<and> int (length c) < 2 ^ 63) cs"
    by simp_all
  from AppendBlockDigest_large [OF c(1)] obtain entry blockDigest where
    a: "AppendBlockDigest mp manifest c = Inr (manifest @ entry, blockDigest)"
    and e: "length entry = 64"
    by blast
  have step: "Put_loop memory_store mp (ChunkReader (c # cs) EOF) manifest offset s calls =
      Put_loop memory_store mp (ChunkReader cs EOF) (manifest @ entry)
        (int64 (offset + int (length c))) (s(blockDigest \<mapsto> c)) (calls @ [CallPut blockDigest])"
    by (subst Put_loop.simps) (simp add: a memory_store_Put [OF c(2)])
  from Cons.IH [OF cs, of "manifest @ entry" "int64 (offset + int (length c))"
      "s(blockDigest \<mapsto> c)" "calls @ [CallPut blockDigest]"]
  obtain manifest' s' calls' where
    r: "Put_loop memory_store mp (ChunkReader cs EOF) (manifest @ entry)
          (int64 (offset + int (length c))) (s(blockDigest \<mapsto> c))
          (calls @ [CallPut blockDigest]) = (Inr manifest', s', calls')"
    and l: "length manifest' = length (manifest @ entry) + 64 * length cs"
    by blast
  have "length manifest' = length manifest + 64 * length (c # cs)"
    using l e by simp
  with r show ?case unfolding step by blast
qed

text \<open>
  On a manifest of \<open>k\<close> entries of 64 bytes for a blob of \<open>k\<close> whole blocks, the
  manifest parser panics at every offset of the last block: it takes the size of that
  block to be \<open>blobSizeBytes % blockSizeBytes = 0\<close> and reads a chunk entry.
\<close>

lemma GetBlockDigest_last_block:
  assumes "0 < B" and "2 \<le> k" and "k * B < 2 ^ 63" and "k * 64 < 2 ^ 63"
    and "length manifest = nat (k * 64)"
    and "(k - 1) * B \<le> off" and "off < k * B"
  shows "GetBlockDigest (newBLAKE3ZCCManifestParser inst (k * B) B hs) manifest off =
           Inl (Panic ''index out of range'')"
proof -
  have kB: "0 \<le> k * B" using assms(1,2) by simp
  have off: "0 \<le> off" "off < 2 ^ 63"
  proof -
    have "0 \<le> (k - 1) * B" using assms(1,2) by simp
    with assms(6) show "0 \<le> off" by simp
    from assms(3,7) show "off < 2 ^ 63" by simp
  qed
  have B63: "B < 2 ^ 63"
  proof -
    have "1 * B \<le> k * B" using assms(1,2) by (intro mult_right_mono) simp_all
    with assms(3) show ?thesis by simp
  qed
  have "off div B = k - 1"
  proof (rule int_div_pos_eq [where r = "off - (k - 1) * B"])
    show "off = B * (k - 1) + (off - (k - 1) * B)" by (simp add: algebra_simps)
    show "0 \<le> off - (k - 1) * B" using assms(6) by simp
    show "off - (k - 1) * B < B" using assms(7) by (simp add: algebra_simps)
  qed
  then have d: "go_div off B = Inr (k - 1)"
    using go_div_nonneg [OF assms(1) off] by simp
  have "(k * B + B - 1) div B = ((B - 1) + k * B) div B" by (simp add: algebra_simps)
  also have "\<dots> = (B - 1) div B + k" using assms(1) by simp
  also have "(B - 1) div B = 0" using assms(1) by simp
  finally have c: "convertSizeToBlockCount (k * B) B = Inr k"
    using convertSizeToBlockCount_pos [OF assms(1) kB assms(3) B63] by simp
  have r: "go_rem (k * B) B = Inr 0"
    using go_rem_pos [OF assms(1) kB assms(3)] by simp
  have k1: "int64 (k - 1) = k - 1"
    using assms(2,4) by (intro int64_id) (simp add: is_int64_def)
  have s: "int64 ((k - 1) * blake3zccParentNodeSizeBytes) = (k - 1) * 64"
    using assms(2,4) by (simp add: blake3zccParentNodeSizeBytes_def int64_id is_int64_def)
  have s0: "\<not> ((k - 1) * 64 < 0 \<or> int (length manifest) < (k - 1) * 64)"
    using assms(2,5) by simp
  have "length (drop (nat ((k - 1) * 64)) manifest) = 64"
    using assms(2,5) by (simp add: nat_diff_distrib' algebra_simps)
  then have u: "unmarshalBLAKE3ZCCChunkNode (drop (nat ((k - 1) * 64)) manifest) =
      Inl (Panic ''index out of range'')"
    by (intro unmarshalBLAKE3ZCCChunkNode_short) simp
  show ?thesis
    using d c r s0 u
    by (simp add: GetBlockDigest_def newBLAKE3ZCCManifestParser_def k1 s Let_def)
qed

text \<open>
  C1. The claim: \<open>Put\<close> of a byte sequence under its BLAKE3ZCC digest, followed by
  \<open>Get\<close> of that digest over the same backing store, reproduces the byte sequence.
  For a blob \<open>b\<close> of \<open>k \<ge> 2\<close> whole blocks of more than 1024 bytes, stored over the
  store held in memory under any BLAKE3ZCC digest of its size (that of \<open>b\<close> among
  them) and with room for the manifest, \<open>Put\<close> succeeds and \<open>Get\<close> returns a
  concatenating buffer; but every read of that buffer at an offset of the last block
  panics in the manifest parser, so that the bytes of the last block are never
  returned.
\<close>

theorem decomposing_Put_Get_whole_blocks:
  assumes "newDigestBLAKE3ZCC inst h (int (length b)) = Inr d"
    and "28 \<le> length h" and "list_all is_lower_hex h"
    and "1024 < B" and "2 \<le> k" and "int (length b) = k * B" and "k * B < 2 ^ 63"
    and "k * 64 \<le> M" and "M < 2 ^ 63"
  shows "\<exists>s' calls cb.
           decomposing_Put (NewDecomposingBlobAccess memory_store B M) s d
             (NewValidatedBufferFromByteSlice b) = (None, s', calls) \<and>
           decomposing_Get (NewDecomposingBlobAccess memory_store B M) s' d =
             Inr (ConcatenatingBuffer cb) \<and>
           (\<forall>plen off. 0 < plen \<and> (k - 1) * B \<le> off \<and> off < k * B \<longrightarrow>
              casConcatenatingBuffer_ReadAt cb plen off =
                Some (Inl (Panic ''index out of range'')))"
proof -
  let ?ba = "NewDecomposingBlobAccess memory_store B M"
  let ?md = "Digest (''B3ZM:'' @ h @ ''-'' @ fmt_d (k * 64) @ ''-'' @ inst)"
  let ?mp = "newBLAKE3ZCCManifestParser inst (k * B) B (length h div 2)"
  have nd: "CHR ''-'' \<notin> set h"
    using assms(3) by (auto simp: list_all_iff dest: is_lower_hex_not_dash)
  have d: "d = Digest (''B3Z:'' @ h @ ''-'' @ fmt_d (k * B) @ ''-'' @ inst)"
    using assms(1,6) by (simp add: newDigestBLAKE3ZCC_def split: if_splits)
  have B0: "0 < B" using assms(4) by simp
  have k0: "0 < k" using assms(5) by simp
  have "1 * B < k * B" using B0 assms(5) by (intro mult_strict_right_mono) simp_all
  then have BS: "B < k * B" by simp
  have B63: "B < 2 ^ 63" using BS assms(7) by simp
  have "k * 1024 \<le> k * B" using k0 assms(4) by (intro mult_left_mono) simp_all
  with assms(7) have "k * 1024 < 2 ^ 63" by linarith
  with assms(5) have k64: "k * 64 + 33 < 2 ^ 63" by linarith
  have cd: "(k * B + B - 1) div B = k"
  proof -
    have "(k * B + B - 1) div B = ((B - 1) + k * B) div B" by (simp add: algebra_simps)
    also have "\<dots> = (B - 1) div B + k" using B0 by simp
    also have "(B - 1) div B = 0" using B0 by simp
    finally show ?thesis by simp
  qed
  have ovf: "((k * B + B - 1) div B) * 64 + 33 < 2 ^ 63"
    unfolding cd by (rule k64)
  have Md: "k * 64 = ((k * B + B - 1) div B) * 64 +
              (if 0 < k * B mod B \<and> k * B mod B \<le> 1024 then 33 else 0)"
    unfolding cd by simp
  note c = ToManifest_constructed_manifest [OF assms(2) nd assms(7) B0 BS ovf Md, of inst]
  have iB: "int64 (dba_blockSizeBytes ?ba) = B"
    using B0 B63 by (simp add: NewDecomposingBlobAccess_def int64_id is_int64_def)
  have iM: "int64 (dba_maximumManifestSizeBytes ?ba) = M"
    using assms(5,8,9) by (simp add: NewDecomposingBlobAccess_def int64_id is_int64_def)
  have fits: "\<not> int64 (dba_maximumManifestSizeBytes ?ba) < k * 64"
    unfolding iM using assms(8) by simp
  have tm: "ToManifest d (int64 (dba_blockSizeBytes ?ba)) = Inr (Some (?md, ?mp))"
    unfolding iB d by (rule c(1))
  have rd: "buf_ToChunkReader (NewValidatedBufferFromByteSlice b) 0
              (ChunkSizeExactly (dba_blockSizeBytes ?ba)) = ChunkReader (chop (nat B) b) EOF"
    by (simp add: NewValidatedBufferFromByteSlice_def ChunkSizeExactly_def
          NewDecomposingBlobAccess_def)
  have lb: "length b = nat k * nat B"
    using assms(6) B0 k0 by (simp add: nat_mult_distrib [symmetric] nat_eq_iff)
  from chop_whole [OF _ lb] B0 have
    n: "length (chop (nat B) b) = nat k" and
    a: "list_all (\<lambda>c. length c = nat B) (chop (nat B) b)"
    by simp_all
  have "list_all (\<lambda>c. 1024 < length c \<and> int (length c) < 2 ^ 63) (chop (nat B) b)"
    using a assms(4) B63 by (auto simp: list_all_iff)
  from Put_loop_memory_store [OF this, of ?mp "[]" 0 s "[]"]
  obtain manifest s1 calls1 where
    lp: "Put_loop memory_store ?mp (ChunkReader (chop (nat B) b) EOF) [] 0 s [] =
           (Inr manifest, s1, calls1)"
    and lm: "length manifest = 64 * nat k"
    by (auto simp: n)
  have lmi: "int (length manifest) = k * 64"
    using lm k0 by simp
  have lmn: "length manifest = nat (k * 64)"
    using lm k0 by (simp add: nat_mult_distrib)
  have st: "ba_Put memory_store s1 ?md (NewValidatedBufferFromByteSlice manifest) =
      (None, s1(?md \<mapsto> manifest))"
    using k64 by (intro memory_store_Put) (simp add: lmi)
  let ?s' = "s1(?md \<mapsto> manifest)"
  let ?fetcher = "\<lambda>offset. case GetBlockDigest ?mp manifest offset of
                         Inl e \<Rightarrow> Inl e
                       | Inr (blockDigest, blockOffset) \<Rightarrow>
                           Inr (ba_Get memory_store ?s' blockDigest, blockOffset)"
  let ?cb = "NewCASConcatenatingBuffer d ?fetcher"
  have base: "dba_base ?ba = memory_store"
    by (simp add: NewDecomposingBlobAccess_def)
  have put: "decomposing_Put ?ba s d (NewValidatedBufferFromByteSlice b) =
      (None, ?s', calls1 @ [CallPut ?md])"
    unfolding decomposing_Put_def tm rd base
    using c(2) fits lp st by (simp del: fun_upd_apply)
  have ld: "buf_ToByteSlice (ba_Get memory_store ?s' ?md) (dba_maximumManifestSizeBytes ?ba) =
      Inr manifest"
    using assms(8)
    by (simp add: memory_store_def NewValidatedBufferFromByteSlice_def
          NewDecomposingBlobAccess_def lmi)
  have get: "decomposing_Get ?ba ?s' d = Inr (ConcatenatingBuffer ?cb)"
    unfolding decomposing_Get_def tm base
    using ld by (simp del: fun_upd_apply)
  have read: "casConcatenatingBuffer_ReadAt ?cb plen off =
      Some (Inl (Panic ''index out of range''))"
    if p: "0 < plen \<and> (k - 1) * B \<le> off \<and> off < k * B" for plen off
  proof -
    have "0 \<le> (k - 1) * B" using B0 assms(5) by simp
    with p have off0: "\<not> off < 0" by simp
    have sz: "GetSizeBytes (ccb_digest ?cb) = Inr (k * B)"
      unfolding d using c(3) by (simp add: NewCASConcatenatingBuffer_def)
    have k63: "k * 64 < 2 ^ 63" using k64 by simp
    have "GetBlockDigest ?mp manifest off = Inl (Panic ''index out of range'')"
      using p by (intro GetBlockDigest_last_block [OF B0 assms(5,7) k63 lmn]) simp_all
    then have f: "ccb_fetcher ?cb off = Inl (Panic ''index out of range'')"
      by (simp add: NewCASConcatenatingBuffer_def)
    show ?thesis
      unfolding casConcatenatingBuffer_ReadAt_def
      using off0 p sz f
      by (subst casConcatenatingBuffer_ReadAt_loop.simps) simp
  qed
  show ?thesis
    using put get read by blast
qed


text \<open>
  Two blocks of 8 KiB: 16384 zero bytes are stored, and reading the second block back
  panics.
\<close>

theorem decomposing_Put_Get_whole_blocks_witness:
  "\<exists>s' calls cb.
     decomposing_Put (NewDecomposingBlobAccess memory_store 8192 2097152) Map.empty
       (Digest ''B3Z:b04cb634fdfe6f964be03de05510f901-16384-instance'')
       (NewValidatedBufferFromByteSlice (replicate 16384 0)) = (None, s', calls) \<and>
     decomposing_Get (NewDecomposingBlobAccess memory_store 8192 2097152) s'
       (Digest ''B3Z:b04cb634fdfe6f964be03de05510f901-16384-instance'') =
       Inr (ConcatenatingBuffer cb) \<and>
     casConcatenatingBuffer_ReadAt cb 8192 8192 = Some (Inl (Panic ''index out of range''))"
proof -
  let ?h = "''b04cb634fdfe6f964be03de05510f901''"
  have c: "newDigestBLAKE3ZCC ''instance'' ?h (int (length (replicate 16384 (0::byte)))) =
      Inr (Digest ''B3Z:b04cb634fdfe6f964be03de05510f901-16384-instance'')"
    by (simp add: newDigestBLAKE3ZCC_def fmt_d_eval)
  have l: "28 \<le> length ?h" by simp
  have x: "list_all is_lower_hex ?h" by code_simp
  have a: "(1024::int) < 8192" "(2::int) \<le> 2"
    "int (length (replicate 16384 (0::byte))) = 2 * 8192"
    "(2::int) * 8192 < 2 ^ 63" "(2::int) * 64 \<le> 2097152" "(2097152::int) < 2 ^ 63"
    by simp_all
  from decomposing_Put_Get_whole_blocks [OF c l x a, of Map.empty]
  obtain s' calls cb where
    p: "decomposing_Put (NewDecomposingBlobAccess memory_store 8192 2097152) Map.empty
       (Digest ''B3Z:b04cb634fdfe6f964be03de05510f901-16384-instance'')
       (NewValidatedBufferFromByteSlice (replicate 16384 0)) = (None, s', calls)"
    and g: "decomposing_Get (NewDecomposingBlobAccess memory_store 8192 2097152) s'
       (Digest ''B3Z:b04cb634fdfe6f964be03de05510f901-16384-instance'') =
       Inr (ConcatenatingBuffer cb)"
    and r: "\<forall>plen off. 0 < plen \<and> (2 - 1) * 8192 \<le> off \<and> off < 2 * 8192 \<longrightarrow>
              casConcatenatingBuffer_ReadAt cb plen off =
                Some (Inl (Panic ''index out of range''))"
    by blast
  from r have "casConcatenatingBuffer_ReadAt cb 8192 8192 =
      Some (Inl (Panic ''index out of range''))"
    by simp
  with p g show ?thesis by blast
qed

end
